theory Spec2Isabelle
  imports Main "HOL-Library.Word"
begin

unbundle bit_operations_syntax

section \<open>Basic types (sega\_os.h)\<close>

text \<open>
  \<^verbatim>\<open>int16_t\<close> values are 16-bit words read through \<open>sint\<close>; arithmetic on them wraps,
  comparisons are signed.  The field \<^verbatim>\<open>top\<close> of \<^verbatim>\<open>Rect\<close> is called \<open>top_edge\<close>, the fields of
  \<^verbatim>\<open>Point\<close> are \<open>pt_x\<close> and \<open>pt_y\<close>, \<^verbatim>\<open>Window.id\<close> is \<open>win_id\<close> and \<^verbatim>\<open>Window.above\<close> is
  \<open>above_w\<close>, because the plain names are taken in HOL.
\<close>

record Rect =
  top_edge :: "16 word"
  left :: "16 word"
  bottom :: "16 word"
  right :: "16 word"

record Point =
  pt_x :: "16 word"
  pt_y :: "16 word"

section \<open>Window manager data (wm.h)\<close>

definition WM_MAX_WINDOWS :: nat where "WM_MAX_WINDOWS = 16"
definition WM_MAX_DIRTY_RECTS :: nat where "WM_MAX_DIRTY_RECTS = 32"
definition WM_TITLE_MAX :: nat where "WM_TITLE_MAX = 31"
definition WM_SCREEN_W :: int where "WM_SCREEN_W = 320"
definition WM_SCREEN_H :: int where "WM_SCREEN_H = 224"
definition WM_MENUBAR_H :: int where "WM_MENUBAR_H = 20"

datatype WindowPart =
  WM_PART_NONE | WM_PART_MENUBAR | WM_PART_DESKTOP | WM_PART_DRAG
  | WM_PART_CONTENT | WM_PART_CLOSE | WM_PART_GROW | WM_PART_GOAWAY

datatype WindowStyle =
  WM_STYLE_DOCUMENT | WM_STYLE_DIALOG | WM_STYLE_PLAIN | WM_STYLE_SHADOW | WM_STYLE_ALERT

fun style_code :: "WindowStyle \<Rightarrow> 8 word" where
  "style_code WM_STYLE_DOCUMENT = 0"
| "style_code WM_STYLE_DIALOG = 1"
| "style_code WM_STYLE_PLAIN = 2"
| "style_code WM_STYLE_SHADOW = 3"
| "style_code WM_STYLE_ALERT = 4"

definition WF_VISIBLE :: "8 word" where "WF_VISIBLE = 0x01"
definition WF_HILITED :: "8 word" where "WF_HILITED = 0x02"
definition WF_HAS_CLOSE :: "8 word" where "WF_HAS_CLOSE = 0x04"
definition WF_HAS_GROW :: "8 word" where "WF_HAS_GROW = 0x08"
definition WF_MODAL :: "8 word" where "WF_MODAL = 0x10"
definition WF_DIRTY :: "8 word" where "WF_DIRTY = 0x20"

text \<open>
  A \<^verbatim>\<open>Window *\<close> is \<open>None\<close> for the null pointer and \<open>Some i\<close> for \<^verbatim>\<open>&wm.pool[i]\<close>.
  Callback pointers are 32-bit addresses, 0 being null.
\<close>

record Window =
  win_id :: "8 word"
  style :: "8 word"
  flags :: "8 word"
  frame :: Rect
  content :: Rect
  titleBar :: Rect
  title :: "8 word list"
  above_w :: "nat option"
  below :: "nat option"
  refCon :: "32 word"
  drawProc :: "32 word"
  clickProc :: "32 word"
  dragProc :: "32 word"
  win_dirtyCount :: "8 word"
  win_dirtyRects :: "Rect list"

record DirtyRect =
  rect :: Rect
  valid :: "8 word"

record WindowManager =
  pool :: "Window list"
  poolUsed :: "8 word list"
  windowCount :: "8 word"
  topWindow :: "nat option"
  bottomWindow :: "nat option"
  activeWindow :: "nat option"
  dirtyRects :: "DirtyRect list"
  dirtyCount :: "8 word"
  desktopPattern :: "8 word"
  menuBarDirty :: "8 word"
  cursorPos :: Point
  cursorVisible :: "8 word"

text \<open>What \<^verbatim>\<open>memset(p, 0, sizeof ...)\<close> leaves in a record.\<close>

definition zero_rect :: Rect where
  "zero_rect = \<lparr>top_edge = 0, left = 0, bottom = 0, right = 0\<rparr>"

definition zero_window :: Window where
  "zero_window = \<lparr>win_id = 0, style = 0, flags = 0, frame = zero_rect, content = zero_rect,
     titleBar = zero_rect, title = replicate (Suc WM_TITLE_MAX) 0, above_w = None, below = None,
     refCon = 0, drawProc = 0, clickProc = 0, dragProc = 0, win_dirtyCount = 0,
     win_dirtyRects = replicate 4 zero_rect\<rparr>"

definition zero_dirty :: DirtyRect where
  "zero_dirty = \<lparr>rect = zero_rect, valid = 0\<rparr>"

section \<open>Window manager helpers (wm.c)\<close>

definition rect_contains_point :: "Rect \<Rightarrow> Point \<Rightarrow> bool" where
  "rect_contains_point r pt \<longleftrightarrow>
     sint (pt_x pt) \<ge> sint (left r) \<and> sint (pt_x pt) < sint (right r) \<and>
     sint (pt_y pt) \<ge> sint (top_edge r) \<and> sint (pt_y pt) < sint (bottom r)"

definition rect_intersects :: "Rect \<Rightarrow> Rect \<Rightarrow> bool" where
  "rect_intersects a b \<longleftrightarrow>
     \<not> (sint (right a) \<le> sint (left b) \<or> sint (left a) \<ge> sint (right b) \<or>
        sint (bottom a) \<le> sint (top_edge b) \<or> sint (top_edge a) \<ge> sint (bottom b))"

definition rect_union :: "Rect \<Rightarrow> Rect \<Rightarrow> Rect" where
  "rect_union a b =
     \<lparr>top_edge = (if sint (top_edge a) < sint (top_edge b) then top_edge a else top_edge b),
      left = (if sint (left a) < sint (left b) then left a else left b),
      bottom = (if sint (bottom a) > sint (bottom b) then bottom a else bottom b),
      right = (if sint (right a) > sint (right b) then right a else right b)\<rparr>"

definition rect_clip_to_screen :: "Rect \<Rightarrow> Rect" where
  "rect_clip_to_screen r =
     (let r1 = (if sint (left r) < 0 then r\<lparr>left := 0\<rparr> else r);
          r2 = (if sint (top_edge r1) < 0 then r1\<lparr>top_edge := 0\<rparr> else r1);
          r3 = (if sint (right r2) > WM_SCREEN_W then r2\<lparr>right := 320\<rparr> else r2);
          r4 = (if sint (bottom r3) > WM_SCREEN_H then r3\<lparr>bottom := 224\<rparr> else r3)
      in r4)"

definition BORDER_W :: "16 word" where "BORDER_W = 1"
definition TITLEBAR_H :: "16 word" where "TITLEBAR_H = 18"
definition CLOSE_SIZE :: "16 word" where "CLOSE_SIZE = 12"

definition compute_window_rects :: "Window \<Rightarrow> Window" where
  "compute_window_rects win =
     (let tb = \<lparr>top_edge = top_edge (frame win) + BORDER_W,
                left = left (frame win) + BORDER_W,
                bottom = top_edge (frame win) + BORDER_W + TITLEBAR_H,
                right = right (frame win) - BORDER_W\<rparr>;
          ct = \<lparr>top_edge = bottom tb + 1,
                left = left (frame win) + BORDER_W,
                bottom = bottom (frame win) - BORDER_W,
                right = right (frame win) - BORDER_W\<rparr>;
          win1 = win\<lparr>titleBar := tb, content := ct\<rparr>
      in if style win1 = style_code WM_STYLE_PLAIN \<or> style win1 = style_code WM_STYLE_SHADOW
         then win1\<lparr>titleBar := (titleBar win1)\<lparr>top_edge := 0, bottom := 0\<rparr>,
                   content := (content win1)\<lparr>top_edge := top_edge (frame win1) + BORDER_W\<rparr>\<rparr>
         else win1)"

text \<open>Reading and writing one pool slot through a pointer.\<close>

definition win_at :: "WindowManager \<Rightarrow> nat \<Rightarrow> Window" where
  "win_at s i = pool s ! i"

definition upd_win :: "nat \<Rightarrow> (Window \<Rightarrow> Window) \<Rightarrow> WindowManager \<Rightarrow> WindowManager" where
  "upd_win i f s = s\<lparr>pool := (pool s)[i := f (pool s ! i)]\<rparr>"

text \<open>
  \<^verbatim>\<open>pool_alloc\<close>: the first free slot from \<open>i\<close> on, marked used, counted and zeroed;
  \<open>None\<close> (the null pointer) with the state untouched when the loop runs off the pool.
\<close>

function pool_alloc_from :: "nat \<Rightarrow> WindowManager \<Rightarrow> nat option \<times> WindowManager" where
  "pool_alloc_from i s =
     (if i < WM_MAX_WINDOWS then
        (if poolUsed s ! i = 0 then
           (Some i,
            s\<lparr>poolUsed := (poolUsed s)[i := 1],
              windowCount := windowCount s + 1,
              pool := (pool s)[i := zero_window\<lparr>win_id := of_nat i\<rparr>]\<rparr>)
         else pool_alloc_from (Suc i) s)
      else (None, s))"
  by pat_completeness auto
termination
  by (relation "measure (\<lambda>(i, s). WM_MAX_WINDOWS - i)") auto

declare pool_alloc_from.simps [simp del]

definition pool_alloc :: "WindowManager \<Rightarrow> nat option \<times> WindowManager" where
  "pool_alloc s = pool_alloc_from 0 s"

definition pool_free :: "nat option \<Rightarrow> WindowManager \<Rightarrow> WindowManager" where
  "pool_free win s =
     (case win of
        None \<Rightarrow> s
      | Some w \<Rightarrow>
          if unat (win_id (win_at s w)) < WM_MAX_WINDOWS
          then s\<lparr>poolUsed := (poolUsed s)[unat (win_id (win_at s w)) := 0],
                 windowCount := windowCount s - 1\<rparr>
          else s)"

definition zorder_unlink :: "nat \<Rightarrow> WindowManager \<Rightarrow> WindowManager" where
  "zorder_unlink w s =
     (let s1 = (case above_w (win_at s w) of
                  Some a \<Rightarrow> upd_win a (\<lambda>x. x\<lparr>below := below (win_at s w)\<rparr>) s
                | None \<Rightarrow> s\<lparr>topWindow := below (win_at s w)\<rparr>);
          s2 = (case below (win_at s1 w) of
                  Some b \<Rightarrow> upd_win b (\<lambda>x. x\<lparr>above_w := above_w (win_at s1 w)\<rparr>) s1
                | None \<Rightarrow> s1\<lparr>bottomWindow := above_w (win_at s1 w)\<rparr>)
      in upd_win w (\<lambda>x. x\<lparr>above_w := None, below := None\<rparr>) s2)"

definition zorder_push_top :: "nat \<Rightarrow> WindowManager \<Rightarrow> WindowManager" where
  "zorder_push_top w s =
     (let s1 = upd_win w (\<lambda>x. x\<lparr>above_w := None, below := topWindow s\<rparr>) s;
          s2 = (case topWindow s1 of
                  Some t \<Rightarrow> upd_win t (\<lambda>x. x\<lparr>above_w := Some w\<rparr>) s1
                | None \<Rightarrow> s1);
          s3 = s2\<lparr>topWindow := Some w\<rparr>
      in if bottomWindow s3 = None then s3\<lparr>bottomWindow := Some w\<rparr> else s3)"

section \<open>Dirty rectangles (wm.c)\<close>

text \<open>
  The merge loop of \<^verbatim>\<open>WM_InvalidateRect\<close>: the first valid entry below \<^verbatim>\<open>dirtyCount\<close> that
  intersects the clipped rectangle takes the union and the function returns; \<open>None\<close> when
  the loop ends without a merge.
\<close>

function dirty_merge_from :: "nat \<Rightarrow> Rect \<Rightarrow> WindowManager \<Rightarrow> WindowManager option" where
  "dirty_merge_from i clipped s =
     (if i < unat (dirtyCount s) then
        (if valid (dirtyRects s ! i) \<noteq> 0 \<and> rect_intersects (rect (dirtyRects s ! i)) clipped
         then Some (s\<lparr>dirtyRects := (dirtyRects s)
                  [i := (dirtyRects s ! i)\<lparr>rect := rect_union (rect (dirtyRects s ! i)) clipped\<rparr>]\<rparr>)
         else dirty_merge_from (Suc i) clipped s)
      else None)"
  by pat_completeness auto
termination
  by (relation "measure (\<lambda>(i, c, s). unat (dirtyCount s) - i)") auto

declare dirty_merge_from.simps [simp del]

definition WM_InvalidateRect :: "Rect option \<Rightarrow> WindowManager \<Rightarrow> WindowManager" where
  "WM_InvalidateRect r s =
     (case r of
        None \<Rightarrow> s
      | Some r0 \<Rightarrow>
          (let clipped = rect_clip_to_screen r0 in
           if sint (left clipped) \<ge> sint (right clipped) \<or>
              sint (top_edge clipped) \<ge> sint (bottom clipped)
           then s
           else
             (case dirty_merge_from 0 clipped s of
                Some s' \<Rightarrow> s'
              | None \<Rightarrow>
                  if unat (dirtyCount s) < WM_MAX_DIRTY_RECTS
                  then s\<lparr>dirtyRects := (dirtyRects s)
                           [unat (dirtyCount s) := \<lparr>rect = clipped, valid = 1\<rparr>],
                         dirtyCount := dirtyCount s + 1\<rparr>
                  else s\<lparr>dirtyRects := (dirtyRects s)
                           [0 := (dirtyRects s ! 0)
                                   \<lparr>rect := rect_union (rect (dirtyRects s ! 0)) clipped\<rparr>]\<rparr>)))"

definition WM_InvalidateWindow :: "nat option \<Rightarrow> WindowManager \<Rightarrow> WindowManager" where
  "WM_InvalidateWindow win s =
     (case win of None \<Rightarrow> s | Some w \<Rightarrow> WM_InvalidateRect (Some (frame (win_at s w))) s)"

definition WM_BeginUpdate :: "WindowManager \<Rightarrow> 8 word" where
  "WM_BeginUpdate s = dirtyCount s"

definition WM_EndUpdate :: "WindowManager \<Rightarrow> WindowManager" where
  "WM_EndUpdate s =
     s\<lparr>dirtyRects := map (\<lambda>d. d\<lparr>valid := 0\<rparr>) (dirtyRects s), dirtyCount := 0,
       menuBarDirty := 0\<rparr>"

section \<open>Initialisation and window lifecycle (wm.c)\<close>

definition WM_Init :: WindowManager where
  "WM_Init =
     \<lparr>pool = replicate WM_MAX_WINDOWS zero_window,
      poolUsed = replicate WM_MAX_WINDOWS 0,
      windowCount = 0, topWindow = None, bottomWindow = None, activeWindow = None,
      dirtyRects = replicate WM_MAX_DIRTY_RECTS zero_dirty, dirtyCount = 0,
      desktopPattern = 1, menuBarDirty = 0,
      cursorPos = \<lparr>pt_x = 160, pt_y = 112\<rparr>, cursorVisible = 1\<rparr>"

text \<open>
  A \<^verbatim>\<open>const char *\<close> argument is \<open>None\<close> for the null pointer and \<open>Some cs\<close> for a
  string whose bytes before the terminator are \<open>cs\<close>; reading at or past \<open>length cs\<close> gives
  the terminator.  The copy loop also records the indices of the title array it writes.
\<close>

definition str_at :: "8 word list \<Rightarrow> nat \<Rightarrow> 8 word" where
  "str_at cs i = (if i < length cs then cs ! i else 0)"

function title_copy_loop ::
  "nat \<Rightarrow> 8 word list \<Rightarrow> 8 word list \<Rightarrow> nat list \<Rightarrow> nat \<times> 8 word list \<times> nat list" where
  "title_copy_loop i src dst written =
     (if i < WM_TITLE_MAX \<and> str_at src i \<noteq> 0
      then title_copy_loop (Suc i) src (dst[i := str_at src i]) (written @ [i])
      else (i, dst, written))"
  by pat_completeness auto
termination
  by (relation "measure (\<lambda>(i, src, dst, written). WM_TITLE_MAX - i)") auto

declare title_copy_loop.simps [simp del]

definition copy_title :: "8 word list \<Rightarrow> 8 word list \<Rightarrow> 8 word list \<times> nat list" where
  "copy_title src dst =
     (case title_copy_loop 0 src dst [] of
        (i, dst', written) \<Rightarrow> (dst'[i := 0], written @ [i]))"

definition WM_NewWindow ::
  "Rect \<Rightarrow> 8 word list option \<Rightarrow> WindowStyle \<Rightarrow> 8 word \<Rightarrow> WindowManager
     \<Rightarrow> nat option \<times> WindowManager" where
  "WM_NewWindow bounds ttl sty flgs s =
     (case pool_alloc s of
        (None, s0) \<Rightarrow> (None, s0)
      | (Some w, s0) \<Rightarrow>
          (let s1 = upd_win w (\<lambda>x. x\<lparr>frame := rect_clip_to_screen bounds\<rparr>) s0;
               s2 = upd_win w (\<lambda>x. x\<lparr>style := style_code sty, flags := flgs\<rparr>) s1;
               s3 = (case ttl of
                       None \<Rightarrow> s2
                     | Some cs \<Rightarrow> upd_win w (\<lambda>x. x\<lparr>title := fst (copy_title cs (title x))\<rparr>) s2);
               s4 = (if sty = WM_STYLE_DOCUMENT
                     then upd_win w (\<lambda>x. x\<lparr>flags := flags x OR WF_HAS_CLOSE\<rparr>) s3 else s3);
               s5 = (if sty = WM_STYLE_DIALOG \<or> sty = WM_STYLE_ALERT
                     then upd_win w (\<lambda>x. x\<lparr>flags := flags x OR WF_MODAL\<rparr>) s4 else s4);
               s6 = upd_win w compute_window_rects s5;
               s7 = zorder_push_top w s6;
               s8 = (case activeWindow s7 of
                       Some a \<Rightarrow> upd_win a (\<lambda>x. x\<lparr>flags := flags x AND NOT WF_HILITED\<rparr>) s7
                     | None \<Rightarrow> s7);
               s9 = s8\<lparr>activeWindow := Some w\<rparr>;
               s10 = upd_win w (\<lambda>x. x\<lparr>flags := flags x OR WF_HILITED\<rparr>) s9;
               s11 = (if flgs AND WF_VISIBLE \<noteq> 0 then WM_InvalidateWindow (Some w) s10 else s10)
           in (Some w, s11)))"

definition WM_DisposeWindow :: "nat option \<Rightarrow> WindowManager \<Rightarrow> WindowManager" where
  "WM_DisposeWindow win s =
     (case win of
        None \<Rightarrow> s
      | Some w \<Rightarrow>
          (let s1 = WM_InvalidateRect (Some (frame (win_at s w))) s;
               s2 = zorder_unlink w s1;
               s3 = (if activeWindow s2 = Some w then
                       (let s' = s2\<lparr>activeWindow := topWindow s2\<rparr> in
                        case activeWindow s' of
                          Some a \<Rightarrow> upd_win a (\<lambda>x. x\<lparr>flags := flags x OR WF_HILITED\<rparr>) s'
                        | None \<Rightarrow> s')
                     else s2)
           in pool_free (Some w) s3))"

definition WM_SelectWindow :: "nat option \<Rightarrow> WindowManager \<Rightarrow> WindowManager" where
  "WM_SelectWindow win s =
     (case win of
        None \<Rightarrow> s
      | Some w \<Rightarrow>
          if Some w = topWindow s then s
          else
            (let s1 = (case activeWindow s of
                         Some a \<Rightarrow>
                           WM_InvalidateWindow (Some a)
                             (upd_win a (\<lambda>x. x\<lparr>flags := flags x AND NOT WF_HILITED\<rparr>) s)
                       | None \<Rightarrow> s);
                 s2 = zorder_unlink w s1;
                 s3 = zorder_push_top w s2;
                 s4 = s3\<lparr>activeWindow := Some w\<rparr>;
                 s5 = upd_win w (\<lambda>x. x\<lparr>flags := flags x OR WF_HILITED\<rparr>) s4
             in WM_InvalidateWindow (Some w) s5))"

definition WM_SendToBack :: "nat option \<Rightarrow> WindowManager \<Rightarrow> WindowManager" where
  "WM_SendToBack win s =
     (case win of
        None \<Rightarrow> s
      | Some w \<Rightarrow>
          if Some w = bottomWindow s then s
          else
            (let s1 = zorder_unlink w s;
                 s2 = upd_win w (\<lambda>x. x\<lparr>below := None, above_w := bottomWindow s1\<rparr>) s1;
                 s3 = (case bottomWindow s2 of
                         Some b \<Rightarrow> upd_win b (\<lambda>x. x\<lparr>below := Some w\<rparr>) s2
                       | None \<Rightarrow> s2);
                 s4 = s3\<lparr>bottomWindow := Some w\<rparr>;
                 s5 = (if topWindow s4 = None then s4\<lparr>topWindow := Some w\<rparr> else s4)
             in WM_InvalidateRect (Some (frame (win_at s5 w))) s5))"

text \<open>
  The link-at-bottom code that \<^verbatim>\<open>WM_SendToBack\<close> runs inline after unlinking, on its own,
  for stating what it does to the chain.
\<close>

definition zorder_push_bottom :: "nat \<Rightarrow> WindowManager \<Rightarrow> WindowManager" where
  "zorder_push_bottom w s1 =
     (let s2 = upd_win w (\<lambda>x. x\<lparr>below := None, above_w := bottomWindow s1\<rparr>) s1;
          s3 = (case bottomWindow s2 of
                  Some b \<Rightarrow> upd_win b (\<lambda>x. x\<lparr>below := Some w\<rparr>) s2
                | None \<Rightarrow> s2);
          s4 = s3\<lparr>bottomWindow := Some w\<rparr>
      in if topWindow s4 = None then s4\<lparr>topWindow := Some w\<rparr> else s4)"

definition WM_SetTitle :: "nat option \<Rightarrow> 8 word list option \<Rightarrow> WindowManager \<Rightarrow> WindowManager" where
  "WM_SetTitle win ttl s =
     (case (win, ttl) of
        (Some w, Some cs) \<Rightarrow>
          (let s1 = upd_win w (\<lambda>x. x\<lparr>title := fst (copy_title cs (title x))\<rparr>) s
           in WM_InvalidateRect (Some (titleBar (win_at s1 w))) s1)
      | _ \<Rightarrow> s)"

definition WM_GetWindowById :: "8 word \<Rightarrow> WindowManager \<Rightarrow> nat option" where
  "WM_GetWindowById i s =
     (if unat i < WM_MAX_WINDOWS \<and> poolUsed s ! unat i \<noteq> 0 then Some (unat i) else None)"

section \<open>Hit testing (wm.c)\<close>

definition closeBox_of :: "Window \<Rightarrow> Rect" where
  "closeBox_of win =
     \<lparr>top_edge = top_edge (titleBar win) + 3,
      left = left (titleBar win) + 4,
      bottom = top_edge (titleBar win) + 3 + CLOSE_SIZE,
      right = left (titleBar win) + 4 + CLOSE_SIZE\<rparr>"

definition growBox_of :: "Window \<Rightarrow> Rect" where
  "growBox_of win =
     \<lparr>top_edge = bottom (frame win) - 1 - 12,
      left = right (frame win) - 1 - 12,
      bottom = bottom (frame win) - 1,
      right = right (frame win) - 1\<rparr>"

text \<open>The part of a window whose frame contains the point, in the order the code tests.\<close>

definition window_part :: "Window \<Rightarrow> Point \<Rightarrow> WindowPart" where
  "window_part win pt =
     (if flags win AND WF_HAS_CLOSE \<noteq> 0 \<and> rect_contains_point (titleBar win) pt \<and>
         rect_contains_point (closeBox_of win) pt then WM_PART_CLOSE
      else if flags win AND WF_HAS_GROW \<noteq> 0 \<and> rect_contains_point (growBox_of win) pt
      then WM_PART_GROW
      else if rect_contains_point (titleBar win) pt then WM_PART_DRAG
      else if rect_contains_point (content win) pt then WM_PART_CONTENT
      else WM_PART_DRAG)"

text \<open>
  The front-to-back walk.  It follows \<^verbatim>\<open>below\<close> pointers until it runs into the null
  pointer, so on a cyclic chain it need not return: the result is an option, \<open>None\<close> for
  a walk that never ends.
\<close>

partial_function (option) find_walk ::
  "WindowManager \<Rightarrow> Point \<Rightarrow> nat option \<Rightarrow> (WindowPart \<times> nat option) option" where
  "find_walk s pt cur =
     (case cur of
        None \<Rightarrow> Some (WM_PART_DESKTOP, None)
      | Some w \<Rightarrow>
          if flags (win_at s w) AND WF_VISIBLE = 0 then find_walk s pt (below (win_at s w))
          else if rect_contains_point (frame (win_at s w)) pt
          then Some (window_part (win_at s w) pt, Some w)
          else find_walk s pt (below (win_at s w)))"

definition WM_FindWindow :: "Point \<Rightarrow> WindowManager \<Rightarrow> (WindowPart \<times> nat option) option" where
  "WM_FindWindow pt s =
     (if sint (pt_y pt) < WM_MENUBAR_H then Some (WM_PART_MENUBAR, None)
      else find_walk s pt (topWindow s))"

section \<open>Concrete states used to exercise the theorems\<close>

definition rect_empty :: "Rect \<Rightarrow> bool" where
  "rect_empty r \<longleftrightarrow> sint (left r) \<ge> sint (right r) \<or> sint (top_edge r) \<ge> sint (bottom r)"

definition full_wm :: WindowManager where
  "full_wm = WM_Init\<lparr>poolUsed := replicate WM_MAX_WINDOWS 1, windowCount := 16\<rparr>"

definition hit_window :: Window where
  "hit_window = zero_window
     \<lparr>flags := WF_VISIBLE OR WF_HILITED OR WF_HAS_CLOSE OR WF_HAS_GROW,
      frame := \<lparr>top_edge = 10, left = 10, bottom = 100, right = 100\<rparr>,
      content := \<lparr>top_edge = 30, left = 11, bottom = 99, right = 99\<rparr>,
      titleBar := \<lparr>top_edge = 11, left = 11, bottom = 29, right = 99\<rparr>\<rparr>"

definition hit_wm :: WindowManager where
  "hit_wm = WM_Init
     \<lparr>pool := (pool WM_Init)[0 := hit_window], poolUsed := (poolUsed WM_Init)[0 := 1],
      windowCount := 1, topWindow := Some 0, bottomWindow := Some 0, activeWindow := Some 0\<rparr>"

definition rect_A :: Rect where
  "rect_A = \<lparr>top_edge = 30, left = 0, bottom = 40, right = 10\<rparr>"

definition rect_B :: Rect where
  "rect_B = \<lparr>top_edge = 30, left = 20, bottom = 40, right = 30\<rparr>"

definition rect_C :: Rect where
  "rect_C = \<lparr>top_edge = 30, left = 5, bottom = 40, right = 25\<rparr>"

definition rect_offscreen :: Rect where
  "rect_offscreen = \<lparr>top_edge = 30, left = 400, bottom = 40, right = 500\<rparr>"

section \<open>Title strings\<close>

text \<open>
  The C string held by a byte array is its prefix before the first NUL.  A title array is
  well formed when it has its 32 bytes and holds a NUL, so that the string has at most
  \<^verbatim>\<open>WM_TITLE_MAX\<close> characters.
\<close>

definition c_strlen :: "8 word list \<Rightarrow> nat" where
  "c_strlen cs = length (takeWhile (\<lambda>c. c \<noteq> 0) cs)"

definition c_string :: "8 word list \<Rightarrow> 8 word list" where
  "c_string t = takeWhile (\<lambda>c. c \<noteq> 0) t"

definition title_ok :: "8 word list \<Rightarrow> bool" where
  "title_ok t \<longleftrightarrow> length t = Suc WM_TITLE_MAX \<and> 0 \<in> set t \<and> length (c_string t) \<le> WM_TITLE_MAX"

definition wm_arrays_ok :: "WindowManager \<Rightarrow> bool" where
  "wm_arrays_ok s \<longleftrightarrow>
     length (pool s) = WM_MAX_WINDOWS \<and> length (poolUsed s) = WM_MAX_WINDOWS \<and>
     (\<forall>i<WM_MAX_WINDOWS. length (title (win_at s i)) = Suc WM_TITLE_MAX)"

definition titles_ok :: "WindowManager \<Rightarrow> bool" where
  "titles_ok s \<longleftrightarrow>
     (\<forall>i<WM_MAX_WINDOWS. poolUsed s ! i \<noteq> 0 \<longrightarrow> title_ok (title (win_at s i)))"

definition new_title :: "8 word list option \<Rightarrow> 8 word list" where
  "new_title ttl =
     (case ttl of
        None \<Rightarrow> replicate (Suc WM_TITLE_MAX) 0
      | Some cs \<Rightarrow> fst (copy_title cs (replicate (Suc WM_TITLE_MAX) 0)))"

definition long_title :: "8 word list" where
  "long_title = replicate 40 0x41"

section \<open>Z-order: the list a chain stands for\<close>

text \<open>
  \<open>nxt zs v\<close> is the element after \<open>v\<close> in the list \<open>zs\<close> and \<open>prv zs v\<close> the one before it,
  \<open>None\<close> at the ends and for a \<open>v\<close> that is not in the list.  The chain of a window manager
  stands for the list \<open>zs\<close> (front to back) when \<^verbatim>\<open>topWindow\<close> and \<^verbatim>\<open>bottomWindow\<close> are its ends
  and every pool slot's \<^verbatim>\<open>below\<close> and \<^verbatim>\<open>above\<close> pointers are its neighbours in \<open>zs\<close>.
\<close>

fun first_of :: "'a list \<Rightarrow> 'a option" where
  "first_of [] = None"
| "first_of (x # xs) = Some x"

fun nxt :: "nat list \<Rightarrow> nat \<Rightarrow> nat option" where
  "nxt [] v = None"
| "nxt (x # zs) v = (if v = x then first_of zs else nxt zs v)"

definition prv :: "nat list \<Rightarrow> nat \<Rightarrow> nat option" where
  "prv zs v = nxt (rev zs) v"

definition linked :: "WindowManager \<Rightarrow> nat list \<Rightarrow> bool" where
  "linked s zs \<longleftrightarrow>
     distinct zs \<and> (\<forall>w\<in>set zs. w < WM_MAX_WINDOWS) \<and>
     topWindow s = first_of zs \<and> bottomWindow s = first_of (rev zs) \<and>
     (\<forall>w<WM_MAX_WINDOWS. above_w (win_at s w) = prv zs w \<and> below (win_at s w) = nxt zs w)"

definition zinv :: "WindowManager \<Rightarrow> nat list \<Rightarrow> bool" where
  "zinv s zs \<longleftrightarrow>
     length (pool s) = WM_MAX_WINDOWS \<and> length (poolUsed s) = WM_MAX_WINDOWS \<and> linked s zs \<and>
     (\<forall>i<WM_MAX_WINDOWS. poolUsed s ! i \<noteq> 0 \<longleftrightarrow> i \<in> set zs) \<and>
     (\<forall>i\<in>set zs. win_id (win_at s i) = of_nat i)"

text \<open>
  Walking a chain: follow the pointer \<open>f\<close> from a start pointer until the null pointer,
  collecting the windows visited; \<open>None\<close> when the walk has not ended after \<open>n\<close> windows.
\<close>

fun walk :: "(nat \<Rightarrow> nat option) \<Rightarrow> nat \<Rightarrow> nat option \<Rightarrow> nat list option" where
  "walk f n None = Some []"
| "walk f 0 (Some w) = None"
| "walk f (Suc n) (Some w) = map_option ((#) w) (walk f n (f w))"

definition walk_below :: "WindowManager \<Rightarrow> nat list option" where
  "walk_below s = walk (\<lambda>w. below (win_at s w)) WM_MAX_WINDOWS (topWindow s)"

definition walk_above :: "WindowManager \<Rightarrow> nat list option" where
  "walk_above s = walk (\<lambda>w. above_w (win_at s w)) WM_MAX_WINDOWS (bottomWindow s)"

definition zorder_consistent :: "WindowManager \<Rightarrow> bool" where
  "zorder_consistent s \<longleftrightarrow>
     (\<forall>a<WM_MAX_WINDOWS. \<forall>b. above_w (win_at s a) = Some b \<longrightarrow>
         b < WM_MAX_WINDOWS \<and> below (win_at s b) = Some a) \<and>
     (\<exists>zs. walk_below s = Some zs \<and> walk_above s = Some (rev zs) \<and> distinct zs \<and>
         set zs = {i. i < WM_MAX_WINDOWS \<and> poolUsed s ! i \<noteq> 0} \<and>
         ((zs = [] \<and> topWindow s = None \<and> bottomWindow s = None) \<or>
          (zs \<noteq> [] \<and> topWindow s = Some (hd zs) \<and> bottomWindow s = Some (last zs))))"

text \<open>
  A sequence of window-manager calls.  A window argument is given by its id and looked up
  with \<^verbatim>\<open>WM_GetWindowById\<close>, as the dispatcher does: the call receives a live window or the
  null pointer.
\<close>

datatype wm_call =
  NewWindow Rect "8 word list option" WindowStyle "8 word"
  | DisposeWindow "8 word"
  | SelectWindow "8 word"
  | SendToBack "8 word"

fun wm_call_step :: "wm_call \<Rightarrow> WindowManager \<Rightarrow> WindowManager" where
  "wm_call_step (NewWindow b t st f) s = snd (WM_NewWindow b t st f s)"
| "wm_call_step (DisposeWindow i) s = WM_DisposeWindow (WM_GetWindowById i s) s"
| "wm_call_step (SelectWindow i) s = WM_SelectWindow (WM_GetWindowById i s) s"
| "wm_call_step (SendToBack i) s = WM_SendToBack (WM_GetWindowById i s) s"

fun run_calls :: "wm_call list \<Rightarrow> WindowManager \<Rightarrow> WindowManager" where
  "run_calls [] s = s"
| "run_calls (c # cs) s = run_calls cs (wm_call_step c s)"

text \<open>The same calls on the list of windows, front to back.\<close>

fun zlist_step :: "wm_call \<Rightarrow> nat list \<Rightarrow> nat list" where
  "zlist_step (NewWindow b t st f) zs =
     (case find (\<lambda>i. i \<notin> set zs) [0..<WM_MAX_WINDOWS] of None \<Rightarrow> zs | Some w \<Rightarrow> w # zs)"
| "zlist_step (DisposeWindow i) zs = remove1 (unat i) zs"
| "zlist_step (SelectWindow i) zs =
     (if unat i \<in> set zs then unat i # remove1 (unat i) zs else zs)"
| "zlist_step (SendToBack i) zs =
     (if unat i \<in> set zs then remove1 (unat i) zs @ [unat i] else zs)"

fun zlist_run :: "wm_call list \<Rightarrow> nat list \<Rightarrow> nat list" where
  "zlist_run [] zs = zs"
| "zlist_run (c # cs) zs = zlist_run cs (zlist_step c zs)"

definition demo_calls :: "wm_call list" where
  "demo_calls =
     [NewWindow rect_A None WM_STYLE_DOCUMENT WF_VISIBLE,
      NewWindow rect_B (Some long_title) WM_STYLE_DIALOG WF_VISIBLE,
      NewWindow rect_C None WM_STYLE_PLAIN 0,
      SelectWindow 0, SendToBack 2, DisposeWindow 0, SelectWindow 7]"

section \<open>Gate-array registers and the command protocol (ga\_regs.h, common.h)\<close>

text \<open>
  The communication registers both processors see: the two flag bytes of \<^verbatim>\<open>GA_COMM_FLAG\<close>,
  the eight command words, the eight status words and \<^verbatim>\<open>GA_MEM_MODE\<close>.
\<close>

record ga_regs =
  cfm :: "8 word"
  cfs :: "8 word"
  comm_cmd :: "16 word list"
  comm_status :: "16 word list"
  mem_mode :: "16 word"

datatype flag = CFM | CFS

datatype reg16 = COMM_CMD nat | COMM_STATUS nat | MEM_MODE

fun read_flag :: "ga_regs \<Rightarrow> flag \<Rightarrow> 8 word" where
  "read_flag g CFM = cfm g"
| "read_flag g CFS = cfs g"

fun write_flag :: "flag \<Rightarrow> 8 word \<Rightarrow> ga_regs \<Rightarrow> ga_regs" where
  "write_flag CFM v g = g\<lparr>cfm := v\<rparr>"
| "write_flag CFS v g = g\<lparr>cfs := v\<rparr>"

fun read_reg :: "ga_regs \<Rightarrow> reg16 \<Rightarrow> 16 word" where
  "read_reg g (COMM_CMD i) = comm_cmd g ! i"
| "read_reg g (COMM_STATUS i) = comm_status g ! i"
| "read_reg g MEM_MODE = mem_mode g"

fun write_reg :: "reg16 \<Rightarrow> 16 word \<Rightarrow> ga_regs \<Rightarrow> ga_regs" where
  "write_reg (COMM_CMD i) v g = g\<lparr>comm_cmd := (comm_cmd g)[i := v]\<rparr>"
| "write_reg (COMM_STATUS i) v g = g\<lparr>comm_status := (comm_status g)[i := v]\<rparr>"
| "write_reg MEM_MODE v g = g\<lparr>mem_mode := v\<rparr>"

definition MEM_MODE_RET :: "16 word" where "MEM_MODE_RET = 0x0001"
definition MEM_MODE_DMNA :: "16 word" where "MEM_MODE_DMNA = 0x0002"
definition MEM_MODE_1M :: "16 word" where "MEM_MODE_1M = 0x0004"

definition CMD_NONE :: "8 word" where "CMD_NONE = 0x00"
definition CMD_BOOT :: "8 word" where "CMD_BOOT = 0x01"
definition CMD_INIT_OS :: "8 word" where "CMD_INIT_OS = 0x02"
definition CMD_RENDER_FRAME :: "8 word" where "CMD_RENDER_FRAME = 0x10"
definition CMD_WRAM_SWAP :: "8 word" where "CMD_WRAM_SWAP = 0x11"
definition CMD_OPEN_WINDOW :: "8 word" where "CMD_OPEN_WINDOW = 0x20"
definition CMD_CLOSE_WINDOW :: "8 word" where "CMD_CLOSE_WINDOW = 0x21"
definition CMD_MOVE_WINDOW :: "8 word" where "CMD_MOVE_WINDOW = 0x22"
definition CMD_CD_PLAY :: "8 word" where "CMD_CD_PLAY = 0x40"
definition CMD_MOUSE_EVENT :: "8 word" where "CMD_MOUSE_EVENT = 0x60"

definition STATUS_IDLE :: "8 word" where "STATUS_IDLE = 0x00"
definition STATUS_BUSY :: "8 word" where "STATUS_BUSY = 0x01"
definition STATUS_ACK :: "8 word" where "STATUS_ACK = 0x02"
definition STATUS_DONE :: "8 word" where "STATUS_DONE = 0x03"
definition STATUS_ERROR :: "8 word" where "STATUS_ERROR = 0xFF"

definition SUB_STATE_READY :: "16 word" where "SUB_STATE_READY = 2"
definition SUB_STATE_RENDERING :: "16 word" where "SUB_STATE_RENDERING = 3"

text \<open>
  Code that touches the registers is a program: a tree of register accesses, one access per
  node, with the local computation between two accesses folded into the continuation.  A
  busy-wait loop is one node, \<open>SpinFlag\<close> or \<open>SpinReg\<close>: each turn of the loop reads the
  register once and leaves the loop when the value passes the test (\<open>SpinFlag\<close> hands the
  value read to what follows).  \<open>Hang\<close> is a local loop that never ends.
\<close>

datatype 'a prog =
  Ret 'a
  | ReadReg reg16 "16 word \<Rightarrow> 'a prog"
  | WriteReg reg16 "16 word" "'a prog"
  | WriteFlag flag "8 word" "'a prog"
  | SpinFlag flag "8 word \<Rightarrow> bool" "8 word \<Rightarrow> 'a prog"
  | SpinReg reg16 "16 word \<Rightarrow> bool" "'a prog"
  | Hang

primrec bind :: "'a prog \<Rightarrow> ('a \<Rightarrow> 'b prog) \<Rightarrow> 'b prog" where
  "bind (Ret a) f = f a"
| "bind (ReadReg r k) f = ReadReg r (\<lambda>v. bind (k v) f)"
| "bind (WriteReg r v k) f = WriteReg r v (bind k f)"
| "bind (WriteFlag fl v k) f = WriteFlag fl v (bind k f)"
| "bind (SpinFlag fl p k) f = SpinFlag fl p (\<lambda>v. bind (k v) f)"
| "bind (SpinReg r p k) f = SpinReg r p (bind k f)"
| "bind Hang f = Hang"

text \<open>One register access of a program; \<open>None\<close> when it is blocked in a spin or over.\<close>

fun prog_step :: "ga_regs \<Rightarrow> 'a prog \<Rightarrow> (ga_regs \<times> 'a prog) option" where
  "prog_step g (Ret a) = None"
| "prog_step g (ReadReg r k) = Some (g, k (read_reg g r))"
| "prog_step g (WriteReg r v k) = Some (write_reg r v g, k)"
| "prog_step g (WriteFlag fl v k) = Some (write_flag fl v g, k)"
| "prog_step g (SpinFlag fl p k) =
     (if p (read_flag g fl) then Some (g, k (read_flag g fl)) else None)"
| "prog_step g (SpinReg r p k) = (if p (read_reg g r) then Some (g, k) else None)"
| "prog_step g Hang = None"

subsection \<open>Main CPU side\<close>

definition main_send_cmd ::
  "8 word \<Rightarrow> 16 word \<Rightarrow> 16 word \<Rightarrow> 16 word \<Rightarrow> 16 word \<Rightarrow> unit prog" where
  "main_send_cmd cmd p0 p1 p2 p3 =
     SpinFlag CFS (\<lambda>v. v = STATUS_IDLE) (\<lambda>_.
     WriteReg (COMM_CMD 0) p0 (
     WriteReg (COMM_CMD 1) p1 (
     WriteReg (COMM_CMD 2) p2 (
     WriteReg (COMM_CMD 3) p3 (
     WriteFlag CFM cmd (Ret ()))))))"

definition main_wait_done :: "8 word prog" where
  "main_wait_done =
     SpinFlag CFS (\<lambda>v. v = STATUS_DONE \<or> v = STATUS_ERROR) (\<lambda>status.
     WriteFlag CFM CMD_NONE (
     SpinFlag CFS (\<lambda>v. v = STATUS_IDLE) (\<lambda>_. Ret status)))"

definition main_read_result :: "8 word \<Rightarrow> 16 word prog" where
  "main_read_result index = ReadReg (COMM_STATUS (unat index)) (\<lambda>v. Ret v)"

definition main_send_param :: "8 word \<Rightarrow> 16 word \<Rightarrow> unit prog" where
  "main_send_param index v = WriteReg (COMM_CMD (unat index)) v (Ret ())"

definition main_has_wram :: "bool prog" where
  "main_has_wram = ReadReg MEM_MODE (\<lambda>v. Ret (v AND MEM_MODE_DMNA = 0))"

definition main_request_swap :: "unit prog" where
  "main_request_swap =
     ReadReg MEM_MODE (\<lambda>mem.
     WriteReg MEM_MODE (mem OR MEM_MODE_DMNA) (
     SpinReg MEM_MODE (\<lambda>v. v AND MEM_MODE_DMNA = 0) (Ret ())))"

subsection \<open>Sub CPU side\<close>

definition sub_wait_cmd :: "8 word prog" where
  "sub_wait_cmd = SpinFlag CFM (\<lambda>v. v \<noteq> CMD_NONE) (\<lambda>cmd. Ret cmd)"

definition sub_read_param :: "8 word \<Rightarrow> 16 word prog" where
  "sub_read_param index = ReadReg (COMM_CMD (unat index)) (\<lambda>v. Ret v)"

definition sub_write_result :: "8 word \<Rightarrow> 16 word \<Rightarrow> unit prog" where
  "sub_write_result index v = WriteReg (COMM_STATUS (unat index)) v (Ret ())"

definition sub_ack :: "unit prog" where
  "sub_ack = WriteFlag CFS STATUS_BUSY (Ret ())"

definition sub_done :: "unit prog" where
  "sub_done =
     WriteFlag CFS STATUS_DONE (
     SpinFlag CFM (\<lambda>v. v = CMD_NONE) (\<lambda>_.
     WriteFlag CFS STATUS_IDLE (Ret ())))"

definition sub_error :: "unit prog" where
  "sub_error =
     WriteFlag CFS STATUS_ERROR (
     SpinFlag CFM (\<lambda>v. v = CMD_NONE) (\<lambda>_.
     WriteFlag CFS STATUS_IDLE (Ret ())))"

definition sub_return_wram :: "unit prog" where
  "sub_return_wram =
     ReadReg MEM_MODE (\<lambda>mem.
     WriteReg MEM_MODE (mem OR MEM_MODE_RET) (
     SpinReg MEM_MODE (\<lambda>v. v AND MEM_MODE_RET = 0) (Ret ())))"

definition sub_has_wram :: "bool prog" where
  "sub_has_wram = ReadReg MEM_MODE (\<lambda>v. Ret (v AND MEM_MODE_RET = 0))"

section \<open>The command dispatcher (sub.c, input.h)\<close>

text \<open>
  The dispatcher's own variables, the window manager, and what it asks of the collaborators
  it draws with: the calls to the blitter and the menu bar are recorded in order in \<open>drawn\<close>,
  and \<open>menu_tracking\<close> is what \<^verbatim>\<open>MenuBar_IsTracking\<close> answers.
\<close>

datatype draw_op =
  BLT_SetClipRect Rect
  | BLT_FillRectPattern Rect
  | BLT_DrawWindowFrame nat
  | Call_drawProc nat
  | BLT_ResetClip
  | MenuBar_Draw
  | MenuBar_DrawDropdown
  | BLT_BlitBitmap1 "16 word" "16 word"

record sub_local =
  wm :: WindowManager
  cursorX :: "16 word"
  cursorY :: "16 word"
  prevCursorX :: "16 word"
  prevCursorY :: "16 word"
  dragWindow :: "nat option"
  dragOffsetX :: "16 word"
  dragOffsetY :: "16 word"
  windowCounter :: "8 word"
  menu_tracking :: bool
  drawn :: "draw_op list"

record InputEvent =
  evt_type :: "8 word"
  evt_buttons :: "8 word"
  evt_x :: "16 word"
  evt_y :: "16 word"
  evt_dx :: "16 word"
  evt_dy :: "16 word"

text \<open>
  Two parts of the dispatcher are local computations in collaborators outside the kernel and
  are parameters here: \<^verbatim>\<open>os_init\<close> (blitter, menus, heap), and the routing of a decoded mouse
  event through hit test, menu bar and applications (the \<^verbatim>\<open>if\<close> chain on \<^verbatim>\<open>evt.type\<close>).
  Neither touches a register.
\<close>

record externals =
  os_init :: "sub_local \<Rightarrow> sub_local"
  route_mouse :: "InputEvent \<Rightarrow> sub_local \<Rightarrow> sub_local"

definition Input_DecodeMouseEvent :: "InputEvent prog" where
  "Input_DecodeMouseEvent =
     bind (sub_read_param 0) (\<lambda>posX.
     bind (sub_read_param 1) (\<lambda>posY.
     bind (sub_read_param 2) (\<lambda>packed.
     bind (sub_read_param 3) (\<lambda>deltaX.
     Ret \<lparr>evt_type = ucast (drop_bit 8 packed), evt_buttons = ucast (packed AND 0xFF),
          evt_x = posX, evt_y = posY, evt_dx = deltaX, evt_dy = 0\<rparr>))))"

text \<open>
  The paint loop of a render: for each pending dirty rectangle that is valid, clip, fill the
  desktop pattern, then walk the windows back to front drawing the visible ones.  The walk
  follows \<^verbatim>\<open>above\<close> pointers; on a chain that does not end within the 16 pool slots it never
  ends, which is \<open>None\<close> here.
\<close>

definition paint_windows :: "sub_local \<Rightarrow> draw_op list option" where
  "paint_windows st =
     map_option
       (\<lambda>ws. concat (map (\<lambda>w.
          if flags (win_at (wm st) w) AND WF_VISIBLE \<noteq> 0
          then BLT_DrawWindowFrame w #
               (if drawProc (win_at (wm st) w) \<noteq> 0 then [Call_drawProc w] else [])
          else []) ws))
       (walk (\<lambda>w. above_w (win_at (wm st) w)) WM_MAX_WINDOWS (bottomWindow (wm st)))"

definition WM_GetDirtyRect :: "8 word \<Rightarrow> WindowManager \<Rightarrow> DirtyRect option" where
  "WM_GetDirtyRect index s =
     (if unat index < unat (dirtyCount s) then Some (dirtyRects s ! unat index) else None)"

fun paint_dirty :: "nat list \<Rightarrow> sub_local \<Rightarrow> sub_local option" where
  "paint_dirty [] st = Some st"
| "paint_dirty (i # is) st =
     (case WM_GetDirtyRect (of_nat i) (wm st) of
        None \<Rightarrow> paint_dirty is st
      | Some dr \<Rightarrow>
          if valid dr = 0 then paint_dirty is st
          else
            (case paint_windows st of
               None \<Rightarrow> None
             | Some ops \<Rightarrow>
                 paint_dirty is
                   (st\<lparr>drawn := drawn st @
                      [BLT_SetClipRect (rect dr), BLT_FillRectPattern (rect dr)] @ ops\<rparr>)))"

definition untitled :: "8 word list" where
  "untitled = [0x55, 0x6E, 0x74, 0x69, 0x74, 0x6C, 0x65, 0x64]"

definition render_frame :: "sub_local \<Rightarrow> sub_local prog" where
  "render_frame st =
     bind (sub_write_result 0 SUB_STATE_RENDERING) (\<lambda>_.
     bind (sub_write_result 1 (ucast (WM_BeginUpdate (wm st)))) (\<lambda>_.
     case paint_dirty [0..<unat (WM_BeginUpdate (wm st))] st of
       None \<Rightarrow> Hang
     | Some st1 \<Rightarrow>
         (let st2 = st1\<lparr>drawn := drawn st1 @ [BLT_ResetClip, MenuBar_Draw] @
                        (if menu_tracking st1 then [MenuBar_DrawDropdown] else []) @
                        [BLT_BlitBitmap1 (cursorX st1) (cursorY st1)]\<rparr>;
              st3 = st2\<lparr>wm := WM_EndUpdate (wm st2)\<rparr>
          in bind sub_return_wram (\<lambda>_.
             bind (sub_write_result 0 SUB_STATE_READY) (\<lambda>_.
             bind sub_done (\<lambda>_. Ret st3))))))"

definition open_window :: "sub_local \<Rightarrow> sub_local prog" where
  "open_window st =
     bind (sub_read_param 0) (\<lambda>x.
     bind (sub_read_param 1) (\<lambda>y.
     bind (sub_read_param 2) (\<lambda>w.
     bind (sub_read_param 3) (\<lambda>h.
     case WM_NewWindow \<lparr>top_edge = y, left = x, bottom = y + h, right = x + w\<rparr>
            (Some untitled) WM_STYLE_DOCUMENT WF_VISIBLE (wm st) of
       (win, wm') \<Rightarrow>
         bind (sub_write_result 0
                 (case win of Some i \<Rightarrow> ucast (win_id (win_at wm' i)) | None \<Rightarrow> 0xFF)) (\<lambda>_.
         bind sub_done (\<lambda>_. Ret (st\<lparr>wm := wm'\<rparr>)))))))"

definition close_window :: "sub_local \<Rightarrow> sub_local prog" where
  "close_window st =
     bind (sub_read_param 0) (\<lambda>winId.
     case WM_GetWindowById (ucast winId) (wm st) of
       Some w \<Rightarrow>
         bind (sub_write_result 0 0) (\<lambda>_.
         bind sub_done (\<lambda>_. Ret (st\<lparr>wm := WM_DisposeWindow (Some w) (wm st)\<rparr>)))
     | None \<Rightarrow>
         bind (sub_write_result 0 0xFF) (\<lambda>_.
         bind sub_done (\<lambda>_. Ret st)))"

definition mouse_event :: "externals \<Rightarrow> sub_local \<Rightarrow> sub_local prog" where
  "mouse_event ext st =
     bind Input_DecodeMouseEvent (\<lambda>evt.
     let st1 = st\<lparr>prevCursorX := cursorX st, prevCursorY := cursorY st,
                   cursorX := evt_x evt, cursorY := evt_y evt\<rparr>;
         dirtyOld = \<lparr>top_edge = prevCursorY st1, left = prevCursorX st1,
                     bottom = prevCursorY st1 + 16, right = prevCursorX st1 + 11\<rparr>;
         st2 = st1\<lparr>wm := WM_InvalidateRect (Some dirtyOld) (wm st1)\<rparr>;
         dirtyNew = \<lparr>top_edge = cursorY st2, left = cursorX st2,
                     bottom = cursorY st2 + 16, right = cursorX st2 + 11\<rparr>;
         st3 = st2\<lparr>wm := WM_InvalidateRect (Some dirtyNew) (wm st2)\<rparr>
     in bind sub_done (\<lambda>_. Ret (route_mouse ext evt st3)))"

text \<open>\<^verbatim>\<open>process_command\<close>: acknowledge, then the \<^verbatim>\<open>switch\<close> on the opcode, in the source's order.\<close>

definition process_command :: "externals \<Rightarrow> 8 word \<Rightarrow> sub_local \<Rightarrow> sub_local prog" where
  "process_command ext cmd st =
     bind sub_ack (\<lambda>_.
       if cmd = CMD_INIT_OS then bind sub_done (\<lambda>_. Ret (os_init ext st))
       else if cmd = CMD_RENDER_FRAME then render_frame st
       else if cmd = CMD_OPEN_WINDOW then open_window st
       else if cmd = CMD_CLOSE_WINDOW then close_window st
       else if cmd = CMD_CD_PLAY then
         bind (sub_read_param 0) (\<lambda>track. bind sub_done (\<lambda>_. Ret st))
       else if cmd = CMD_MOUSE_EVENT then mouse_event ext st
       else if cmd = CMD_WRAM_SWAP then
         bind sub_return_wram (\<lambda>_. bind sub_done (\<lambda>_. Ret st))
       else bind sub_error (\<lambda>_. Ret st))"

text \<open>One turn of the loop of \<^verbatim>\<open>sub_main\<close>.\<close>

definition sub_main_turn :: "externals \<Rightarrow> sub_local \<Rightarrow> sub_local prog" where
  "sub_main_turn ext st = bind sub_wait_cmd (\<lambda>cmd. process_command ext cmd st)"

section \<open>The two processors and the gate array together\<close>

text \<open>
  The whole system: the registers, the program each processor has left to run, and the
  number of bank swaps the hardware has performed.
\<close>

record 'r sys =
  regs :: ga_regs
  mainp :: "'r prog"
  subp :: "sub_local prog"
  swaps :: nat

datatype agent = Main | Sub | HW

text \<open>
  Modelled from the spec: the gate array's part in a bank swap, which is hardware and not
  code of the repository.  When the back side has set the release bit, the hardware swaps
  the banks and clears the release bit and a pending request bit; \<open>swaps\<close> counts the swaps.
\<close>

definition hw_enabled :: "ga_regs \<Rightarrow> bool" where
  "hw_enabled g \<longleftrightarrow> mem_mode g AND MEM_MODE_RET \<noteq> 0"

definition swap_done :: "16 word \<Rightarrow> 16 word" where
  "swap_done v = v AND NOT (MEM_MODE_RET OR MEM_MODE_DMNA)"

definition hw_swap :: "ga_regs \<Rightarrow> ga_regs" where
  "hw_swap g = g\<lparr>mem_mode := swap_done (mem_mode g)\<rparr>"

text \<open>
  The back side's program is \<open>Ret st\<close> between two commands: its next access is then the
  first of a new turn of \<^verbatim>\<open>sub_main\<close>.
\<close>

definition sub_current :: "externals \<Rightarrow> sub_local prog \<Rightarrow> sub_local prog" where
  "sub_current ext p = (case p of Ret st \<Rightarrow> sub_main_turn ext st | _ \<Rightarrow> p)"

definition enabled :: "externals \<Rightarrow> agent \<Rightarrow> 'r sys \<Rightarrow> bool" where
  "enabled ext a s =
     (case a of
        Main \<Rightarrow> prog_step (regs s) (mainp s) \<noteq> None
      | Sub \<Rightarrow> prog_step (regs s) (sub_current ext (subp s)) \<noteq> None
      | HW \<Rightarrow> hw_enabled (regs s))"

definition step :: "externals \<Rightarrow> agent \<Rightarrow> 'r sys \<Rightarrow> 'r sys" where
  "step ext a s =
     (case a of
        Main \<Rightarrow>
          (case prog_step (regs s) (mainp s) of
             None \<Rightarrow> s
           | Some (g, p) \<Rightarrow> s\<lparr>regs := g, mainp := p\<rparr>)
      | Sub \<Rightarrow>
          (case prog_step (regs s) (sub_current ext (subp s)) of
             None \<Rightarrow> s
           | Some (g, p) \<Rightarrow> s\<lparr>regs := g, subp := p\<rparr>)
      | HW \<Rightarrow>
          if hw_enabled (regs s) then s\<lparr>regs := hw_swap (regs s), swaps := Suc (swaps s)\<rparr>
          else s)"

text \<open>A schedule is the order in which the three take their turns.\<close>

definition run :: "externals \<Rightarrow> agent list \<Rightarrow> 'r sys \<Rightarrow> 'r sys" where
  "run ext sched s = fold (step ext) sched s"

definition round_robin :: "nat \<Rightarrow> agent list" where
  "round_robin n = concat (replicate n [Main, Sub, HW])"

text \<open>
  The next state when only one of the three can move: the first that is enabled moves.
  A state is \<open>solo\<close> when exactly one is enabled and \<open>quiescent\<close> when none is.
\<close>

definition pick :: "externals \<Rightarrow> 'r sys \<Rightarrow> agent" where
  "pick ext s = (if enabled ext Main s then Main else if enabled ext Sub s then Sub else HW)"

definition advance :: "externals \<Rightarrow> 'r sys \<Rightarrow> 'r sys" where
  "advance ext s = step ext (pick ext s) s"

definition solo :: "externals \<Rightarrow> 'r sys \<Rightarrow> bool" where
  "solo ext s \<longleftrightarrow>
     (enabled ext Main s \<and> \<not> enabled ext Sub s \<and> \<not> enabled ext HW s) \<or>
     (\<not> enabled ext Main s \<and> enabled ext Sub s \<and> \<not> enabled ext HW s) \<or>
     (\<not> enabled ext Main s \<and> \<not> enabled ext Sub s \<and> enabled ext HW s)"

definition quiescent :: "externals \<Rightarrow> 'r sys \<Rightarrow> bool" where
  "quiescent ext s \<longleftrightarrow>
     \<not> enabled ext Main s \<and> \<not> enabled ext Sub s \<and> \<not> enabled ext HW s"

fun lockstep :: "externals \<Rightarrow> nat \<Rightarrow> 'r sys \<Rightarrow> bool" where
  "lockstep ext 0 s = quiescent ext s"
| "lockstep ext (Suc n) s = (solo ext s \<and> lockstep ext n (advance ext s))"

fun advance_n :: "externals \<Rightarrow> nat \<Rightarrow> 'r sys \<Rightarrow> 'r sys" where
  "advance_n ext 0 s = s"
| "advance_n ext (Suc n) s = advance_n ext n (advance ext s)"

text \<open>The front side's round trip for one command, and a state to start it from.\<close>

definition main_round_trip ::
  "8 word \<Rightarrow> 16 word \<Rightarrow> 16 word \<Rightarrow> 16 word \<Rightarrow> 16 word \<Rightarrow> (8 word \<times> 16 word) prog" where
  "main_round_trip cmd p0 p1 p2 p3 =
     bind (main_send_cmd cmd p0 p1 p2 p3) (\<lambda>_.
     bind main_wait_done (\<lambda>status.
     bind (main_read_result 0) (\<lambda>r. Ret (status, r))))"

definition idle_regs :: "16 word list \<Rightarrow> 16 word list \<Rightarrow> 16 word \<Rightarrow> ga_regs" where
  "idle_regs cs ss m =
     \<lparr>cfm = CMD_NONE, cfs = STATUS_IDLE, comm_cmd = cs, comm_status = ss, mem_mode = m\<rparr>"

definition start :: "'r prog \<Rightarrow> ga_regs \<Rightarrow> sub_local \<Rightarrow> 'r sys" where
  "start p g st = \<lparr>regs = g, mainp = p, subp = Ret st, swaps = 0\<rparr>"

text \<open>A property that holds in every state of the path the lock-step moves follow.\<close>

fun path_all :: "externals \<Rightarrow> nat \<Rightarrow> ('r sys \<Rightarrow> bool) \<Rightarrow> 'r sys \<Rightarrow> bool" where
  "path_all ext 0 P s = P s"
| "path_all ext (Suc n) P s = (P s \<and> path_all ext n P (advance ext s))"

text \<open>The opcodes for which the \<^verbatim>\<open>switch\<close> of \<^verbatim>\<open>process_command\<close> has no case.\<close>

definition unhandled :: "8 word \<Rightarrow> bool" where
  "unhandled cmd \<longleftrightarrow>
     cmd \<noteq> CMD_INIT_OS \<and> cmd \<noteq> CMD_RENDER_FRAME \<and> cmd \<noteq> CMD_OPEN_WINDOW \<and>
     cmd \<noteq> CMD_CLOSE_WINDOW \<and> cmd \<noteq> CMD_CD_PLAY \<and> cmd \<noteq> CMD_MOUSE_EVENT \<and>
     cmd \<noteq> CMD_WRAM_SWAP"

definition error_path :: "sub_local \<Rightarrow> sub_local prog" where
  "error_path st =
     WriteFlag CFS STATUS_BUSY (
     WriteFlag CFS STATUS_ERROR (
     SpinFlag CFM (\<lambda>v. v = CMD_NONE) (\<lambda>_.
     WriteFlag CFS STATUS_IDLE (Ret st))))"

text \<open>What a render with nothing dirty leaves in the dispatcher's state.\<close>

definition rendered_clean :: "sub_local \<Rightarrow> sub_local" where
  "rendered_clean st =
     st\<lparr>drawn := drawn st @ [BLT_ResetClip, MenuBar_Draw] @
                  (if menu_tracking st then [MenuBar_DrawDropdown] else []) @
                  [BLT_BlitBitmap1 (cursorX st) (cursorY st)],
        wm := WM_EndUpdate (wm st)\<rparr>"

text \<open>Concrete collaborators, registers and dispatcher state to run the protocol on.\<close>

definition demo_ext :: externals where
  "demo_ext = \<lparr>os_init = (\<lambda>st. st), route_mouse = (\<lambda>evt st. st)\<rparr>"

definition demo_local :: sub_local where
  "demo_local =
     \<lparr>wm = WM_Init, cursorX = 160, cursorY = 112, prevCursorX = 160, prevCursorY = 112,
      dragWindow = None, dragOffsetX = 0, dragOffsetY = 0, windowCounter = 0,
      menu_tracking = False, drawn = []\<rparr>"

definition zero8 :: "16 word list" where
  "zero8 = [0, 0, 0, 0, 0, 0, 0, 0]"

definition demo_regs :: ga_regs where
  "demo_regs = idle_regs zero8 zero8 MEM_MODE_1M"

definition two_sends :: "unit prog" where
  "two_sends =
     bind (main_send_cmd CMD_OPEN_WINDOW 10 30 100 90) (\<lambda>_.
     main_send_cmd CMD_RENDER_FRAME 0 0 320 224)"

definition racing_schedule :: "agent list" where
  "racing_schedule =
     [Main, Main, Main, Main, Main, Main, Sub, Main, Main, Main, Main, Main, Main]"

text \<open>What the front side's program has returned, once it has.\<close>

definition main_result :: "'r sys \<Rightarrow> 'r option" where
  "main_result s = (case mainp s of Ret r \<Rightarrow> Some r | _ \<Rightarrow> None)"

text \<open>Two window-manager states that differ at most in the dirty accumulator.\<close>

definition same_core :: "WindowManager \<Rightarrow> WindowManager \<Rightarrow> bool" where
  "same_core s s' \<longleftrightarrow> pool s' = pool s \<and> poolUsed s' = poolUsed s \<and>
     windowCount s' = windowCount s \<and> topWindow s' = topWindow s \<and>
     bottomWindow s' = bottomWindow s \<and> activeWindow s' = activeWindow s"


text \<open>The dispatcher's state with one window (identifier 0) on the desktop.\<close>

definition windowed_local :: sub_local where
  "windowed_local = demo_local\<lparr>wm := hit_wm\<rparr>"

section \<open>Pool exhaustion\<close>

lemma pool_alloc_from_full:
  "(\<And>j. i \<le> j \<Longrightarrow> j < WM_MAX_WINDOWS \<Longrightarrow> poolUsed s ! j \<noteq> 0) \<Longrightarrow>
     pool_alloc_from i s = (None, s)"
proof (induction i s rule: pool_alloc_from.induct)
  case (1 i s)
  show ?case
  proof (cases "i < WM_MAX_WINDOWS")
    case True
    have used: "poolUsed s ! i \<noteq> 0" using 1(2)[of i] True by simp
    moreover have "pool_alloc_from (Suc i) s = (None, s)"
      using 1(1)[OF True used] 1(2) by simp
    ultimately show ?thesis using True by (subst pool_alloc_from.simps) simp
  next
    case False
    then show ?thesis by (subst pool_alloc_from.simps) simp
  qed
qed

text \<open>
  C6.  When every one of the 16 pool slots is marked used, \<^verbatim>\<open>WM_NewWindow\<close> returns the null
  pointer and the window-manager state it leaves is the state it was given: every window
  record, \<^verbatim>\<open>poolUsed\<close>, \<^verbatim>\<open>windowCount\<close>, the z-order pointers, the active window and the dirty
  accumulator are unchanged.
\<close>

theorem pool_exhaustion:
  assumes "\<forall>i<WM_MAX_WINDOWS. poolUsed s ! i \<noteq> 0"
  shows "WM_NewWindow bounds ttl sty flgs s = (None, s)"
proof -
  have "pool_alloc s = (None, s)"
    unfolding pool_alloc_def using assms by (intro pool_alloc_from_full) simp
  then show ?thesis by (simp add: WM_NewWindow_def)
qed

theorem pool_exhaustion_witness:
  "poolUsed full_wm = replicate WM_MAX_WINDOWS 1 \<and>
   WM_NewWindow \<lparr>top_edge = 30, left = 10, bottom = 120, right = 100\<rparr> (Some [0x41])
      WM_STYLE_DOCUMENT WF_VISIBLE full_wm = (None, full_wm)"
proof -
  have h: "\<forall>i<WM_MAX_WINDOWS. poolUsed full_wm ! i \<noteq> 0"
    by (simp add: full_wm_def)
  show ?thesis using pool_exhaustion [OF h] by (simp add: full_wm_def)
qed

section \<open>Hit testing\<close>

lemma hit_wm_window: "win_at hit_wm 0 = hit_window"
  by (simp add: hit_wm_def win_at_def WM_Init_def WM_MAX_WINDOWS_def)

lemma hit_window_fields:
  "flags hit_window AND WF_VISIBLE \<noteq> 0"
  "flags hit_window AND WF_HAS_CLOSE \<noteq> 0"
  "flags hit_window AND WF_HAS_GROW \<noteq> 0"
  "frame hit_window = \<lparr>top_edge = 10, left = 10, bottom = 100, right = 100\<rparr>"
  "titleBar hit_window = \<lparr>top_edge = 11, left = 11, bottom = 29, right = 99\<rparr>"
  by (simp_all add: hit_window_def WF_VISIBLE_def WF_HILITED_def WF_HAS_CLOSE_def WF_HAS_GROW_def)

text \<open>
  C4 as stated fails: the window of the claim is the front window of \<open>hit_wm\<close>, and at
  (15,14) the hit test answers menu bar with no window, because 14 is above the menu-bar
  height 20 and that band is tested before any window.
\<close>

theorem hit_test_menubar_first:
  "win_at hit_wm 0 = hit_window \<and> topWindow hit_wm = Some 0 \<and>
   WM_FindWindow \<lparr>pt_x = 15, pt_y = 14\<rparr> hit_wm = Some (WM_PART_MENUBAR, None) \<and>
   WM_FindWindow \<lparr>pt_x = 15, pt_y = 14\<rparr> hit_wm \<noteq> Some (WM_PART_CLOSE, Some 0)"
  by (simp add: hit_wm_window) (simp add: WM_FindWindow_def WM_MENUBAR_H_def hit_wm_def)

text \<open>
  C4, amended.  Let the front window be visible with the close flag, frame (10,10)-(100,100)
  and title bar (11,11)-(99,29).  At (15,14) the hit test returns the menu bar and no window.
  At every point of the close box that lies below the menu-bar band, that is with
  15 \<le> x < 27 and 20 \<le> y < 26, it returns Close with that window, not Drag.
\<close>

theorem hit_test_close_priority:
  assumes "topWindow s = Some w"
    and "flags (win_at s w) AND WF_VISIBLE \<noteq> 0"
    and "flags (win_at s w) AND WF_HAS_CLOSE \<noteq> 0"
    and "frame (win_at s w) = \<lparr>top_edge = 10, left = 10, bottom = 100, right = 100\<rparr>"
    and "titleBar (win_at s w) = \<lparr>top_edge = 11, left = 11, bottom = 29, right = 99\<rparr>"
  shows "WM_FindWindow \<lparr>pt_x = 15, pt_y = 14\<rparr> s = Some (WM_PART_MENUBAR, None) \<and>
    (15 \<le> sint (pt_x pt) \<and> sint (pt_x pt) < 27 \<and> 20 \<le> sint (pt_y pt) \<and> sint (pt_y pt) < 26
       \<longrightarrow> WM_FindWindow pt s = Some (WM_PART_CLOSE, Some w))"
  using assms
  by (simp add: WM_FindWindow_def WM_MENUBAR_H_def find_walk.simps [of s pt "Some w"]
      rect_contains_point_def window_part_def closeBox_of_def CLOSE_SIZE_def)

theorem hit_test_close_priority_witness:
  "WM_FindWindow \<lparr>pt_x = 15, pt_y = 14\<rparr> hit_wm = Some (WM_PART_MENUBAR, None) \<and>
   WM_FindWindow \<lparr>pt_x = 15, pt_y = 20\<rparr> hit_wm = Some (WM_PART_CLOSE, Some 0)"
proof -
  have top: "topWindow hit_wm = Some 0" by (simp add: hit_wm_def)
  show ?thesis
    using hit_test_close_priority [of hit_wm 0 "\<lparr>pt_x = 15, pt_y = 20\<rparr>", OF top]
    by (simp add: hit_wm_window hit_window_fields)
qed

section \<open>Dirty rectangles\<close>

lemma invalidate_first:
  assumes "dirtyCount s = 0" and "\<not> rect_empty (rect_clip_to_screen r)"
  shows "WM_InvalidateRect (Some r) s =
     s\<lparr>dirtyRects := (dirtyRects s)[0 := \<lparr>rect = rect_clip_to_screen r, valid = 1\<rparr>],
       dirtyCount := 1\<rparr>"
  using assms
  by (simp add: WM_InvalidateRect_def Let_def rect_empty_def WM_MAX_DIRTY_RECTS_def
      dirty_merge_from.simps [of 0])

lemma invalidate_empty:
  "rect_empty (rect_clip_to_screen r) \<Longrightarrow> WM_InvalidateRect (Some r) s = s"
  by (auto simp: WM_InvalidateRect_def Let_def rect_empty_def)

lemma rect_intersects_self: "\<not> rect_empty r \<Longrightarrow> rect_intersects r r"
  by (auto simp: rect_empty_def rect_intersects_def)

lemma rect_union_self: "rect_union r r = r"
  by (simp add: rect_union_def)

lemma invalidate_merge0:
  assumes "dirtyCount s \<noteq> 0" and "valid (dirtyRects s ! 0) \<noteq> 0"
    and "rect_intersects (rect (dirtyRects s ! 0)) (rect_clip_to_screen r)"
    and "\<not> rect_empty (rect_clip_to_screen r)"
  shows "WM_InvalidateRect (Some r) s =
     s\<lparr>dirtyRects := (dirtyRects s)[0 := (dirtyRects s ! 0)
          \<lparr>rect := rect_union (rect (dirtyRects s ! 0)) (rect_clip_to_screen r)\<rparr>]\<rparr>"
proof -
  have "0 < unat (dirtyCount s)" using assms(1) by (simp add: unat_gt_0)
  then show ?thesis using assms
    by (simp add: WM_InvalidateRect_def Let_def rect_empty_def dirty_merge_from.simps [of 0])
qed

lemma invalidate_second:
  assumes "dirtyCount s = 1" and "length (dirtyRects s) = WM_MAX_DIRTY_RECTS"
    and "valid (dirtyRects s ! 0) \<noteq> 0"
    and "\<not> rect_intersects (rect (dirtyRects s ! 0)) (rect_clip_to_screen r)"
    and "\<not> rect_empty (rect_clip_to_screen r)"
  shows "WM_InvalidateRect (Some r) s =
     s\<lparr>dirtyRects := (dirtyRects s)[1 := \<lparr>rect = rect_clip_to_screen r, valid = 1\<rparr>],
       dirtyCount := 2\<rparr>"
  using assms
  by (simp add: WM_InvalidateRect_def Let_def rect_empty_def WM_MAX_DIRTY_RECTS_def
      dirty_merge_from.simps [of 0] dirty_merge_from.simps [of "Suc 0"])

lemma same_twice:
  assumes "dirtyCount s = 0" and "length (dirtyRects s) = WM_MAX_DIRTY_RECTS"
    and "\<not> rect_empty (rect_clip_to_screen r)"
  shows "WM_InvalidateRect (Some r) (WM_InvalidateRect (Some r) s) = WM_InvalidateRect (Some r) s"
    and "dirtyCount (WM_InvalidateRect (Some r) s) = 1"
    and "dirtyRects (WM_InvalidateRect (Some r) s) ! 0 =
           \<lparr>rect = rect_clip_to_screen r, valid = 1\<rparr>"
proof -
  let ?s1 = "WM_InvalidateRect (Some r) s"
  have s1: "?s1 = s\<lparr>dirtyRects := (dirtyRects s)[0 := \<lparr>rect = rect_clip_to_screen r, valid = 1\<rparr>],
       dirtyCount := 1\<rparr>" using assms by (simp add: invalidate_first)
  show c: "dirtyCount ?s1 = 1" by (simp add: s1)
  show d: "dirtyRects ?s1 ! 0 = \<lparr>rect = rect_clip_to_screen r, valid = 1\<rparr>"
    using assms(2) by (simp add: s1 WM_MAX_DIRTY_RECTS_def)
  have "WM_InvalidateRect (Some r) ?s1 =
      ?s1\<lparr>dirtyRects := (dirtyRects ?s1)[0 := (dirtyRects ?s1 ! 0)
          \<lparr>rect := rect_union (rect (dirtyRects ?s1 ! 0)) (rect_clip_to_screen r)\<rparr>]\<rparr>"
    by (rule invalidate_merge0) (simp_all add: c d assms(3) rect_intersects_self)
  also have "\<dots> = ?s1" by (simp add: d rect_union_self) (simp add: s1)
  finally show "WM_InvalidateRect (Some r) ?s1 = ?s1" .
qed

lemma three_rects:
  assumes "dirtyCount s = 0" and "length (dirtyRects s) = WM_MAX_DIRTY_RECTS"
    and "\<not> rect_empty (rect_clip_to_screen a)" and "\<not> rect_empty (rect_clip_to_screen b)"
    and "\<not> rect_empty (rect_clip_to_screen c)"
    and "\<not> rect_intersects (rect_clip_to_screen a) (rect_clip_to_screen b)"
    and "rect_intersects (rect_clip_to_screen a) (rect_clip_to_screen c)"
  shows "dirtyCount (WM_InvalidateRect (Some c) (WM_InvalidateRect (Some b)
            (WM_InvalidateRect (Some a) s))) = 2"
    and "dirtyRects (WM_InvalidateRect (Some c) (WM_InvalidateRect (Some b)
            (WM_InvalidateRect (Some a) s))) ! 0 =
           \<lparr>rect = rect_union (rect_clip_to_screen a) (rect_clip_to_screen c), valid = 1\<rparr>"
    and "dirtyRects (WM_InvalidateRect (Some c) (WM_InvalidateRect (Some b)
            (WM_InvalidateRect (Some a) s))) ! 1 = \<lparr>rect = rect_clip_to_screen b, valid = 1\<rparr>"
proof -
  let ?s1 = "WM_InvalidateRect (Some a) s"
  let ?s2 = "WM_InvalidateRect (Some b) ?s1"
  let ?s3 = "WM_InvalidateRect (Some c) ?s2"
  have c1: "dirtyCount ?s1 = 1"
    and d1: "dirtyRects ?s1 ! 0 = \<lparr>rect = rect_clip_to_screen a, valid = 1\<rparr>"
    using same_twice(2,3)[OF assms(1,2,3)] by auto
  have l1: "length (dirtyRects ?s1) = WM_MAX_DIRTY_RECTS"
    using assms by (simp add: invalidate_first)
  have s2: "?s2 = ?s1\<lparr>dirtyRects := (dirtyRects ?s1)
                  [1 := \<lparr>rect = rect_clip_to_screen b, valid = 1\<rparr>], dirtyCount := 2\<rparr>"
    by (rule invalidate_second) (simp_all add: c1 d1 l1 assms)
  have d20: "dirtyRects ?s2 ! 0 = \<lparr>rect = rect_clip_to_screen a, valid = 1\<rparr>"
    by (simp add: s2 d1)
  have d21: "dirtyRects ?s2 ! 1 = \<lparr>rect = rect_clip_to_screen b, valid = 1\<rparr>"
    using l1 by (simp add: s2 WM_MAX_DIRTY_RECTS_def)
  have c2: "dirtyCount ?s2 = 2" by (simp add: s2)
  have l2: "length (dirtyRects ?s2) = WM_MAX_DIRTY_RECTS" using l1 by (simp add: s2)
  have s3: "?s3 = ?s2\<lparr>dirtyRects := (dirtyRects ?s2)[0 := (dirtyRects ?s2 ! 0)
          \<lparr>rect := rect_union (rect (dirtyRects ?s2 ! 0)) (rect_clip_to_screen c)\<rparr>]\<rparr>"
    by (rule invalidate_merge0) (simp_all add: c2 d20 assms)
  show "dirtyCount ?s3 = 2" by (simp add: s3 c2)
  show "dirtyRects ?s3 ! 0 =
      \<lparr>rect = rect_union (rect_clip_to_screen a) (rect_clip_to_screen c), valid = 1\<rparr>"
    using l2 by (simp add: s3 d20 WM_MAX_DIRTY_RECTS_def)
  show "dirtyRects ?s3 ! 1 = \<lparr>rect = rect_clip_to_screen b, valid = 1\<rparr>"
    using d21 by (simp add: s3)
qed

lemma demo_rects_clip:
  "rect_clip_to_screen rect_A = rect_A" "rect_clip_to_screen rect_B = rect_B"
  "rect_clip_to_screen rect_C = rect_C"
  by (simp_all add: rect_clip_to_screen_def rect_A_def rect_B_def rect_C_def
      WM_SCREEN_W_def WM_SCREEN_H_def)

lemma demo_rects_facts:
  "\<not> rect_empty rect_A" "\<not> rect_empty rect_B" "\<not> rect_empty rect_C"
  "\<not> rect_intersects rect_A rect_B" "rect_intersects rect_A rect_C"
  "rect_intersects rect_B rect_C"
  by (simp_all add: rect_A_def rect_B_def rect_C_def rect_empty_def rect_intersects_def)

lemma wm_init_dirty:
  "dirtyCount WM_Init = 0" "length (dirtyRects WM_Init) = WM_MAX_DIRTY_RECTS"
  by (simp_all add: WM_Init_def)

text \<open>
  C5 as stated fails.  From the empty accumulator of \<open>WM_Init\<close>, invalidating the disjoint
  rectangles A = (0,30)-(10,40) and B = (20,30)-(30,40) and then C = (5,30)-(25,40), which
  intersects both, leaves two entries, not one: the merge loop stops at the first entry that
  intersects.  And a non-empty rectangle that lies off the screen, invalidated twice, leaves
  no entry at all.
\<close>

theorem dirty_merge_not_transitive:
  "rect_intersects rect_A rect_C \<and> rect_intersects rect_B rect_C \<and>
   \<not> rect_intersects rect_A rect_B \<and>
   dirtyCount (WM_InvalidateRect (Some rect_C) (WM_InvalidateRect (Some rect_B)
      (WM_InvalidateRect (Some rect_A) WM_Init))) = 2 \<and>
   \<not> rect_empty rect_offscreen \<and>
   dirtyCount (WM_InvalidateRect (Some rect_offscreen)
      (WM_InvalidateRect (Some rect_offscreen) WM_Init)) = 0"
proof -
  have "dirtyCount (WM_InvalidateRect (Some rect_C) (WM_InvalidateRect (Some rect_B)
      (WM_InvalidateRect (Some rect_A) WM_Init))) = 2"
    by (rule three_rects(1)) (simp_all add: demo_rects_clip demo_rects_facts wm_init_dirty)
  moreover have "rect_empty (rect_clip_to_screen rect_offscreen)"
    by (simp add: rect_clip_to_screen_def rect_offscreen_def rect_empty_def
        WM_SCREEN_W_def WM_SCREEN_H_def)
  moreover have "\<not> rect_empty rect_offscreen"
    by (simp add: rect_offscreen_def rect_empty_def)
  ultimately show ?thesis
    by (simp add: invalidate_empty demo_rects_facts wm_init_dirty)
qed

text \<open>
  C5, amended.  Start from an empty accumulator.  Invalidating twice the same rectangle whose
  clip to the screen is non-empty leaves exactly one entry, the clipped rectangle.
  Invalidating two rectangles whose clips are non-empty and disjoint, and then a third with a
  non-empty clip that intersects the first, leaves exactly two entries: entry 0 is the
  bounding union of the first and the third, entry 1 is the second, unchanged.
\<close>

theorem dirty_merge_first_match:
  assumes "dirtyCount s = 0" and "length (dirtyRects s) = WM_MAX_DIRTY_RECTS"
  shows "(\<not> rect_empty (rect_clip_to_screen r) \<longrightarrow>
           dirtyCount (WM_InvalidateRect (Some r) (WM_InvalidateRect (Some r) s)) = 1 \<and>
           dirtyRects (WM_InvalidateRect (Some r) (WM_InvalidateRect (Some r) s)) ! 0 =
             \<lparr>rect = rect_clip_to_screen r, valid = 1\<rparr>) \<and>
         (\<not> rect_empty (rect_clip_to_screen a) \<and> \<not> rect_empty (rect_clip_to_screen b) \<and>
          \<not> rect_empty (rect_clip_to_screen c) \<and>
          \<not> rect_intersects (rect_clip_to_screen a) (rect_clip_to_screen b) \<and>
          rect_intersects (rect_clip_to_screen a) (rect_clip_to_screen c) \<longrightarrow>
           dirtyCount (WM_InvalidateRect (Some c) (WM_InvalidateRect (Some b)
              (WM_InvalidateRect (Some a) s))) = 2 \<and>
           dirtyRects (WM_InvalidateRect (Some c) (WM_InvalidateRect (Some b)
              (WM_InvalidateRect (Some a) s))) ! 0 =
             \<lparr>rect = rect_union (rect_clip_to_screen a) (rect_clip_to_screen c), valid = 1\<rparr> \<and>
           dirtyRects (WM_InvalidateRect (Some c) (WM_InvalidateRect (Some b)
              (WM_InvalidateRect (Some a) s))) ! 1 = \<lparr>rect = rect_clip_to_screen b, valid = 1\<rparr>)"
  using same_twice [OF assms] three_rects [OF assms] by simp

theorem dirty_merge_first_match_witness:
  "dirtyCount (WM_InvalidateRect (Some rect_A) (WM_InvalidateRect (Some rect_A) WM_Init)) = 1 \<and>
   dirtyRects (WM_InvalidateRect (Some rect_A) (WM_InvalidateRect (Some rect_A) WM_Init)) ! 0 =
     \<lparr>rect = rect_A, valid = 1\<rparr> \<and>
   dirtyCount (WM_InvalidateRect (Some rect_C) (WM_InvalidateRect (Some rect_B)
      (WM_InvalidateRect (Some rect_A) WM_Init))) = 2 \<and>
   dirtyRects (WM_InvalidateRect (Some rect_C) (WM_InvalidateRect (Some rect_B)
      (WM_InvalidateRect (Some rect_A) WM_Init))) ! 0 =
     \<lparr>rect = \<lparr>top_edge = 30, left = 0, bottom = 40, right = 25\<rparr>, valid = 1\<rparr> \<and>
   dirtyRects (WM_InvalidateRect (Some rect_C) (WM_InvalidateRect (Some rect_B)
      (WM_InvalidateRect (Some rect_A) WM_Init))) ! 1 = \<lparr>rect = rect_B, valid = 1\<rparr>"
proof -
  have u: "rect_union rect_A rect_C = \<lparr>top_edge = 30, left = 0, bottom = 40, right = 25\<rparr>"
    by (simp add: rect_union_def rect_A_def rect_C_def)
  show ?thesis
    using dirty_merge_first_match [OF wm_init_dirty, of rect_A rect_A rect_B rect_C]
    by (simp add: demo_rects_clip demo_rects_facts u)
qed

section \<open>Frame lemmas and title strings\<close>
lemma str_at_prefix: "k < c_strlen cs \<Longrightarrow> str_at cs k = cs ! k \<and> cs ! k \<noteq> 0"
  unfolding c_strlen_def str_at_def
  using takeWhile_nth[of k "\<lambda>c. c \<noteq> 0" cs] nth_mem[of k "takeWhile (\<lambda>c. c \<noteq> 0) cs"] set_takeWhileD[of _ "\<lambda>c. c \<noteq> 0" cs]
    length_takeWhile_le[of "\<lambda>c. c \<noteq> 0" cs]
  by (metis (mono_tags, lifting) le_trans linorder_not_less)

lemma str_at_end: "str_at cs (c_strlen cs) = 0"
  unfolding c_strlen_def str_at_def
  using nth_length_takeWhile[of "\<lambda>c. c \<noteq> 0" cs] by auto

lemma str_at_nonzero_iff: "k \<le> c_strlen cs \<Longrightarrow> str_at cs k \<noteq> 0 \<longleftrightarrow> k < c_strlen cs"
  using str_at_prefix[of k cs] str_at_end[of cs] by (cases "k = c_strlen cs") auto

lemma title_copy_loop_closed:
  assumes "i \<le> min (c_strlen src) WM_TITLE_MAX" and "length dst = Suc WM_TITLE_MAX"
  shows "title_copy_loop i src dst written =
           (min (c_strlen src) WM_TITLE_MAX,
            take i dst @ take (min (c_strlen src) WM_TITLE_MAX - i) (drop i src)
              @ drop (min (c_strlen src) WM_TITLE_MAX) dst,
            written @ [i..<min (c_strlen src) WM_TITLE_MAX])"
  using assms
proof (induction i src dst written rule: title_copy_loop.induct)
  case (1 i src dst written)
  let ?m = "min (c_strlen src) WM_TITLE_MAX"
  show ?case
  proof (cases "i < ?m")
    case True
    then have nz: "str_at src i \<noteq> 0" and at: "str_at src i = src ! i" and lt: "i < WM_TITLE_MAX"
      using str_at_prefix[of i src] by auto
    have ilen: "i < length dst" using 1(3) lt by simp
    have isrc: "i < length src" using True length_takeWhile_le[of "\<lambda>c. c \<noteq> 0" src]
      by (simp add: c_strlen_def)
    have step: "title_copy_loop i src dst written =
        title_copy_loop (Suc i) src (dst[i := str_at src i]) (written @ [i])"
      using nz lt by (subst title_copy_loop.simps) simp
    have ih: "title_copy_loop (Suc i) src (dst[i := str_at src i]) (written @ [i]) =
        (?m, take (Suc i) (dst[i := str_at src i]) @ take (?m - Suc i) (drop (Suc i) src)
              @ drop ?m (dst[i := str_at src i]), (written @ [i]) @ [Suc i..<?m])"
      using 1(1) nz lt True 1(3) by simp
    have a: "take (Suc i) (dst[i := str_at src i]) = take i dst @ [src ! i]"
      using ilen by (simp add: take_Suc_conv_app_nth at)
    have b: "drop ?m (dst[i := str_at src i]) = drop ?m dst"
      using True by simp
    have c: "take (?m - i) (drop i src) = src ! i # take (?m - Suc i) (drop (Suc i) src)"
      using True isrc by (metis Cons_nth_drop_Suc Suc_diff_Suc take_Suc_Cons)
    have d: "[i..<?m] = i # [Suc i..<?m]" using True by (simp add: upt_conv_Cons)
    show ?thesis unfolding step ih a b c d by simp
  next
    case False
    then have eq: "i = ?m" using 1(2) le_neq_implies_less by blast
    have stop: "\<not> (i < WM_TITLE_MAX \<and> str_at src i \<noteq> 0)"
    proof (cases "c_strlen src \<le> WM_TITLE_MAX")
      case True
      then have "i = c_strlen src" using eq by simp
      then show ?thesis using str_at_end by simp
    next
      case False
      then show ?thesis using eq by simp
    qed
    have "title_copy_loop i src dst written = (i, dst, written)"
      using stop by (subst title_copy_loop.simps) auto
    then show ?thesis using eq by simp
  qed
qed

lemma copy_title_closed:
  assumes "length dst = Suc WM_TITLE_MAX"
  shows "copy_title src dst =
     (take (min (c_strlen src) WM_TITLE_MAX) src @ 0 # drop (Suc (min (c_strlen src) WM_TITLE_MAX)) dst,
      [0..<Suc (min (c_strlen src) WM_TITLE_MAX)])"
proof -
  let ?m = "min (c_strlen src) WM_TITLE_MAX"
  have len: "c_strlen src \<le> length src"
    by (simp add: c_strlen_def length_takeWhile_le)
  have l: "length (take ?m src) = ?m" using len by simp
  have "(take ?m src @ drop ?m dst)[?m := 0] = take ?m src @ (drop ?m dst)[0 := 0]"
    using l by (simp add: list_update_append)
  moreover have "(drop ?m dst)[0 := 0] = 0 # drop (Suc ?m) dst"
    using assms by (metis Cons_nth_drop_Suc le_imp_less_Suc list_update_code(2) min.cobounded2)
  ultimately show ?thesis
    using title_copy_loop_closed[of 0 src dst "[]"] assms
    by (simp add: copy_title_def)
qed

lemma take_c_string: "m \<le> c_strlen src \<Longrightarrow> take m src = take m (c_string src)"
proof -
  assume a: "m \<le> c_strlen src"
  have "take m src = take m (takeWhile (\<lambda>c. c \<noteq> 0) src @ dropWhile (\<lambda>c. c \<noteq> 0) src)"
    by simp
  also have "\<dots> = take m (takeWhile (\<lambda>c. c \<noteq> 0) src)"
    using a unfolding c_strlen_def by (simp only: take_append) simp
  finally show ?thesis by (simp add: c_string_def)
qed

lemma c_string_nonzero: "c \<in> set (take m (c_string src)) \<Longrightarrow> c \<noteq> 0"
proof -
  assume "c \<in> set (take m (c_string src))"
  then have "c \<in> set (takeWhile (\<lambda>c. c \<noteq> 0) src)"
    unfolding c_string_def by (rule in_set_takeD)
  then show "c \<noteq> 0" by (rule set_takeWhileD [THEN conjunct2])
qed

lemma c_string_copy_title:
  assumes "length dst = Suc WM_TITLE_MAX"
  shows "c_string (fst (copy_title src dst)) = take WM_TITLE_MAX (c_string src)"
proof -
  let ?m = "min (c_strlen src) WM_TITLE_MAX"
  have t: "take ?m src = take ?m (c_string src)" by (rule take_c_string) simp
  have nz: "\<forall>c \<in> set (take ?m (c_string src)). c \<noteq> 0" using c_string_nonzero by blast
  have "c_string (fst (copy_title src dst)) = takeWhile (\<lambda>c. c \<noteq> 0) (take ?m (c_string src) @ 0 # drop (Suc ?m) dst)"
    by (simp add: copy_title_closed[OF assms] t c_string_def)
  also have "\<dots> = take ?m (c_string src)"
    using nz by (simp add: takeWhile_append2 del: set_take_subset)
  also have "\<dots> = take WM_TITLE_MAX (c_string src)"
    by (simp add: c_strlen_def c_string_def min_def)
  finally show ?thesis .
qed

lemma copy_title_length:
  assumes "length dst = Suc WM_TITLE_MAX"
  shows "length (fst (copy_title src dst)) = Suc WM_TITLE_MAX"
proof -
  have "c_strlen src \<le> length src" by (simp add: c_strlen_def length_takeWhile_le)
  then show ?thesis using assms by (simp add: copy_title_closed[OF assms])
qed

lemma copy_title_terminated:
  assumes "length dst = Suc WM_TITLE_MAX"
  shows "0 \<in> set (fst (copy_title src dst))"
  by (simp add: copy_title_closed[OF assms])

lemma copy_title_writes:
  assumes "length dst = Suc WM_TITLE_MAX"
  shows "set (snd (copy_title src dst)) \<subseteq> {0..WM_TITLE_MAX}"
  by (auto simp add: copy_title_closed[OF assms])




lemma upd_win_fields [simp]:
  "poolUsed (upd_win i g s) = poolUsed s"
  "windowCount (upd_win i g s) = windowCount s"
  "topWindow (upd_win i g s) = topWindow s"
  "bottomWindow (upd_win i g s) = bottomWindow s"
  "activeWindow (upd_win i g s) = activeWindow s"
  "dirtyRects (upd_win i g s) = dirtyRects s"
  "dirtyCount (upd_win i g s) = dirtyCount s"
  "length (pool (upd_win i g s)) = length (pool s)"
  by (simp_all add: upd_win_def)

lemma win_at_upd_win:
  "win_at (upd_win j g s) i = (if i = j \<and> j < length (pool s) then g (win_at s j) else win_at s i)"
  by (cases "j < length (pool s)") (auto simp: win_at_def upd_win_def list_update_beyond)

lemma upd_win_keeps:
  assumes "\<And>x. f (g x) = f x"
  shows "f (win_at (upd_win j g s) i) = f (win_at s i)"
  by (simp add: win_at_upd_win assms)

lemmas upd_win_keeps_title = upd_win_keeps [where f = title]
lemmas upd_win_keeps_above = upd_win_keeps [where f = above_w]
lemmas upd_win_keeps_below = upd_win_keeps [where f = below]
lemmas upd_win_keeps_id = upd_win_keeps [where f = win_id]

lemma win_at_simple_updates [simp]:
  "win_at (s\<lparr>activeWindow := a\<rparr>) i = win_at s i"
  "win_at (s\<lparr>topWindow := t\<rparr>) i = win_at s i"
  "win_at (s\<lparr>bottomWindow := b\<rparr>) i = win_at s i"
  "win_at (s\<lparr>dirtyRects := d\<rparr>) i = win_at s i"
  "win_at (s\<lparr>dirtyCount := c\<rparr>) i = win_at s i"
  by (simp_all add: win_at_def)

lemma dirty_merge_from_core:
  "dirty_merge_from i c s = Some s' \<Longrightarrow> same_core s s'"
proof (induction i c s rule: dirty_merge_from.induct)
  case (1 i clipped s)
  show ?case
  proof (cases "i < unat (dirtyCount s)")
    case True
    show ?thesis
    proof (cases "valid (dirtyRects s ! i) \<noteq> 0 \<and> rect_intersects (rect (dirtyRects s ! i)) clipped")
      case hit: True
      then have "s' = s\<lparr>dirtyRects := (dirtyRects s)
                  [i := (dirtyRects s ! i)\<lparr>rect := rect_union (rect (dirtyRects s ! i)) clipped\<rparr>]\<rparr>"
        using 1(2) True by (subst (asm) dirty_merge_from.simps) simp
      then show ?thesis by (simp add: same_core_def)
    next
      case miss: False
      then have "dirty_merge_from (Suc i) clipped s = Some s'"
        using 1(2) True by (subst (asm) dirty_merge_from.simps) auto
      then show ?thesis using 1(1) True miss by blast
    qed
  next
    case False
    then show ?thesis using 1(2) by (subst (asm) dirty_merge_from.simps) simp
  qed
qed

lemma invalidate_core: "same_core s (WM_InvalidateRect r s)"
proof (cases r)
  case None
  then show ?thesis by (simp add: WM_InvalidateRect_def same_core_def)
next
  case (Some r0)
  let ?c = "rect_clip_to_screen r0"
  show ?thesis
  proof (cases "dirty_merge_from 0 ?c s")
    case None
    then show ?thesis using Some by (simp add: WM_InvalidateRect_def Let_def same_core_def)
  next
    case merged: (Some s')
    then have "same_core s s'" by (rule dirty_merge_from_core)
    then show ?thesis using Some merged by (simp add: WM_InvalidateRect_def Let_def same_core_def)
  qed
qed

lemma invalidate_fields [simp]:
  "pool (WM_InvalidateRect r s) = pool s"
  "poolUsed (WM_InvalidateRect r s) = poolUsed s"
  "windowCount (WM_InvalidateRect r s) = windowCount s"
  "topWindow (WM_InvalidateRect r s) = topWindow s"
  "bottomWindow (WM_InvalidateRect r s) = bottomWindow s"
  "activeWindow (WM_InvalidateRect r s) = activeWindow s"
  using invalidate_core [of s r] by (simp_all add: same_core_def)

lemma invalidate_window_fields [simp]:
  "pool (WM_InvalidateWindow w s) = pool s"
  "poolUsed (WM_InvalidateWindow w s) = poolUsed s"
  "windowCount (WM_InvalidateWindow w s) = windowCount s"
  "topWindow (WM_InvalidateWindow w s) = topWindow s"
  "bottomWindow (WM_InvalidateWindow w s) = bottomWindow s"
  "activeWindow (WM_InvalidateWindow w s) = activeWindow s"
  by (simp_all add: WM_InvalidateWindow_def split: option.splits)

lemma win_at_invalidate [simp]:
  "win_at (WM_InvalidateRect r s) i = win_at s i" "win_at (WM_InvalidateWindow w s) i = win_at s i"
  by (simp_all add: win_at_def)


lemma pool_alloc_from_some:
  "pool_alloc_from i s = (Some w, s0) \<Longrightarrow>
     i \<le> w \<and> w < WM_MAX_WINDOWS \<and> poolUsed s ! w = 0 \<and>
     s0 = s\<lparr>poolUsed := (poolUsed s)[w := 1], windowCount := windowCount s + 1,
            pool := (pool s)[w := zero_window\<lparr>win_id := of_nat w\<rparr>]\<rparr>"
proof (induction i s rule: pool_alloc_from.induct)
  case (1 i s)
  show ?case
  proof (cases "i < WM_MAX_WINDOWS")
    case True
    show ?thesis
    proof (cases "poolUsed s ! i = 0")
      case free: True
      then show ?thesis using 1(2) True by (subst (asm) pool_alloc_from.simps) auto
    next
      case used: False
      then have "pool_alloc_from (Suc i) s = (Some w, s0)"
        using 1(2) True by (subst (asm) pool_alloc_from.simps) auto
      then show ?thesis using 1(1) True used by fastforce
    qed
  next
    case False
    then show ?thesis using 1(2) by (subst (asm) pool_alloc_from.simps) simp
  qed
qed

lemma pool_alloc_from_none: "pool_alloc_from i s = (None, s0) \<Longrightarrow> s0 = s"
proof (induction i s rule: pool_alloc_from.induct)
  case (1 i s)
  show ?case
  proof (cases "i < WM_MAX_WINDOWS \<and> poolUsed s ! i \<noteq> 0")
    case True
    then have "pool_alloc_from (Suc i) s = (None, s0)"
      using 1(2) by (subst (asm) pool_alloc_from.simps) auto
    then show ?thesis using 1(1) True by blast
  next
    case False
    then show ?thesis using 1(2) by (subst (asm) pool_alloc_from.simps) (auto split: if_splits)
  qed
qed

lemma compute_window_rects_fields [simp]:
  "title (compute_window_rects x) = title x"
  "above_w (compute_window_rects x) = above_w x"
  "below (compute_window_rects x) = below x"
  "win_id (compute_window_rects x) = win_id x"
  by (simp_all add: compute_window_rects_def Let_def)

lemma zorder_push_top_fields [simp]:
  "poolUsed (zorder_push_top w s) = poolUsed s"
  "windowCount (zorder_push_top w s) = windowCount s"
  "activeWindow (zorder_push_top w s) = activeWindow s"
  "length (pool (zorder_push_top w s)) = length (pool s)"
  "title (win_at (zorder_push_top w s) i) = title (win_at s i)"
  "win_id (win_at (zorder_push_top w s) i) = win_id (win_at s i)"
  by (simp_all add: zorder_push_top_def Let_def upd_win_keeps_title upd_win_keeps_id
      split: option.splits)

lemma zorder_unlink_fields [simp]:
  "poolUsed (zorder_unlink w s) = poolUsed s"
  "windowCount (zorder_unlink w s) = windowCount s"
  "activeWindow (zorder_unlink w s) = activeWindow s"
  "length (pool (zorder_unlink w s)) = length (pool s)"
  "title (win_at (zorder_unlink w s) i) = title (win_at s i)"
  "win_id (win_at (zorder_unlink w s) i) = win_id (win_at s i)"
  by (simp_all add: zorder_unlink_def Let_def upd_win_keeps_title upd_win_keeps_id
      split: option.splits)


lemma new_window_result:
  assumes "pool_alloc s = (Some w, s0)" and "length (pool s) = WM_MAX_WINDOWS"
  shows "fst (WM_NewWindow bounds ttl sty flgs s) = Some w"
    and "poolUsed (snd (WM_NewWindow bounds ttl sty flgs s)) = (poolUsed s)[w := 1]"
    and "length (pool (snd (WM_NewWindow bounds ttl sty flgs s))) = length (pool s)"
    and "title (win_at (snd (WM_NewWindow bounds ttl sty flgs s)) i) =
           (if i = w then new_title ttl else title (win_at s i))"
proof -
  from assms(1) have w: "w < WM_MAX_WINDOWS"
    and s0: "s0 = s\<lparr>poolUsed := (poolUsed s)[w := 1], windowCount := windowCount s + 1,
            pool := (pool s)[w := zero_window\<lparr>win_id := of_nat w\<rparr>]\<rparr>"
    using pool_alloc_from_some[of 0 s w s0] by (auto simp: pool_alloc_def)
  have wl: "w < length (pool s)" using w assms(2) by simp
  define s1 where "s1 = upd_win w (\<lambda>x. x\<lparr>frame := rect_clip_to_screen bounds\<rparr>) s0"
  define s2 where "s2 = upd_win w (\<lambda>x. x\<lparr>style := style_code sty, flags := flgs\<rparr>) s1"
  define s3 where "s3 = (case ttl of None \<Rightarrow> s2
       | Some cs \<Rightarrow> upd_win w (\<lambda>x. x\<lparr>title := fst (copy_title cs (title x))\<rparr>) s2)"
  define s4 where "s4 = (if sty = WM_STYLE_DOCUMENT
                     then upd_win w (\<lambda>x. x\<lparr>flags := flags x OR WF_HAS_CLOSE\<rparr>) s3 else s3)"
  define s5 where "s5 = (if sty = WM_STYLE_DIALOG \<or> sty = WM_STYLE_ALERT
                     then upd_win w (\<lambda>x. x\<lparr>flags := flags x OR WF_MODAL\<rparr>) s4 else s4)"
  define s6 where "s6 = upd_win w compute_window_rects s5"
  define s7 where "s7 = zorder_push_top w s6"
  define s8 where "s8 = (case activeWindow s7 of
                       Some a \<Rightarrow> upd_win a (\<lambda>x. x\<lparr>flags := flags x AND NOT WF_HILITED\<rparr>) s7
                     | None \<Rightarrow> s7)"
  define s10 where "s10 = upd_win w (\<lambda>x. x\<lparr>flags := flags x OR WF_HILITED\<rparr>) (s8\<lparr>activeWindow := Some w\<rparr>)"
  define s11 where "s11 = (if flgs AND WF_VISIBLE \<noteq> 0 then WM_InvalidateWindow (Some w) s10 else s10)"
  have res: "WM_NewWindow bounds ttl sty flgs s = (Some w, s11)"
    unfolding WM_NewWindow_def s11_def s10_def s8_def s7_def s6_def s5_def s4_def s3_def s2_def s1_def
    by (simp only: assms(1) Let_def prod.case option.case)
  show "fst (WM_NewWindow bounds ttl sty flgs s) = Some w" by (simp add: res)
  have u: "poolUsed s11 = poolUsed s0"
    by (simp add: s11_def s10_def s8_def s7_def s6_def s5_def s4_def s3_def s2_def s1_def
        split: option.splits)
  show "poolUsed (snd (WM_NewWindow bounds ttl sty flgs s)) = (poolUsed s)[w := 1]"
    by (simp add: res u s0)
  have l: "length (pool s11) = length (pool s0)"
    by (simp add: s11_def s10_def s8_def s7_def s6_def s5_def s4_def s3_def s2_def s1_def
        split: option.splits)
  show "length (pool (snd (WM_NewWindow bounds ttl sty flgs s))) = length (pool s)"
    by (simp add: res l s0)
  have t0: "title (win_at s0 i) = (if i = w then replicate (Suc WM_TITLE_MAX) 0 else title (win_at s i))" for i
    using wl by (simp add: s0 win_at_def zero_window_def)
  have t2: "title (win_at s2 i) = title (win_at s0 i)" for i
    by (simp add: s2_def s1_def upd_win_keeps_title)
  have l2: "length (pool s2) = length (pool s)" by (simp add: s2_def s1_def s0)
  have t3: "title (win_at s3 i) = (if i = w then new_title ttl else title (win_at s i))"
  proof (cases ttl)
    case None
    then show ?thesis using t0 t2 by (simp add: s3_def new_title_def)
  next
    case (Some cs)
    have "title (win_at s2 w) = replicate (Suc WM_TITLE_MAX) 0"
      by (simp add: t2 t0)
    then show ?thesis using Some t0 t2 l2 wl
      by (simp add: s3_def new_title_def win_at_upd_win)
  qed
  have t11: "title (win_at s11 i) = title (win_at s3 i)"
    by (simp add: s11_def s10_def s8_def s7_def s6_def s5_def s4_def upd_win_keeps_title
        split: option.splits)
  show "title (win_at (snd (WM_NewWindow bounds ttl sty flgs s)) i) =
           (if i = w then new_title ttl else title (win_at s i))"
    by (simp add: res t11 t3)
qed


lemma title_ok_intro:
  assumes "length t = Suc WM_TITLE_MAX" and "0 \<in> set t"
  shows "title_ok t"
proof -
  have "length (takeWhile (\<lambda>c. c \<noteq> 0) t) < length t"
    using assms(2) by (induction t) auto
  then show ?thesis using assms by (simp add: title_ok_def c_string_def)
qed

lemma new_title_ok: "title_ok (new_title ttl)"
proof (cases ttl)
  case None
  then show ?thesis by (intro title_ok_intro) (simp_all add: new_title_def)
next
  case (Some cs)
  then show ?thesis
    by (intro title_ok_intro)
       (simp_all add: new_title_def copy_title_length copy_title_terminated)
qed

lemma c_string_new_title:
  "c_string (new_title ttl) = (case ttl of None \<Rightarrow> [] | Some cs \<Rightarrow> take WM_TITLE_MAX (c_string cs))"
  by (cases ttl) (simp_all add: new_title_def c_string_copy_title, simp add: c_string_def)

lemma new_window_titles_ok:
  assumes "wm_arrays_ok s" and "titles_ok s"
  shows "wm_arrays_ok (snd (WM_NewWindow bounds ttl sty flgs s))"
    and "titles_ok (snd (WM_NewWindow bounds ttl sty flgs s))"
    and "fst (WM_NewWindow bounds ttl sty flgs s) = Some w \<Longrightarrow>
           title (win_at (snd (WM_NewWindow bounds ttl sty flgs s)) w) = new_title ttl"
proof -
  let ?r = "WM_NewWindow bounds ttl sty flgs s"
  have lp: "length (pool s) = WM_MAX_WINDOWS" and lu: "length (poolUsed s) = WM_MAX_WINDOWS"
    using assms(1) by (simp_all add: wm_arrays_ok_def)
  obtain r s0 where pa: "pool_alloc s = (r, s0)" by (cases "pool_alloc s")
  have all: "wm_arrays_ok (snd ?r) \<and> titles_ok (snd ?r) \<and>
     (fst ?r = Some w \<longrightarrow> title (win_at (snd ?r) w) = new_title ttl)"
  proof (cases r)
    case None
    then have "s0 = s" using pa pool_alloc_from_none by (simp add: pool_alloc_def)
    then have res: "?r = (None, s)" using pa None by (simp add: WM_NewWindow_def)
    show ?thesis using assms by (simp add: res)
  next
    case (Some v)
    then have pa': "pool_alloc s = (Some v, s0)" using pa by simp
    note nw = new_window_result [OF pa' lp, of bounds ttl sty flgs]
    have v: "v < WM_MAX_WINDOWS"
      using pa' pool_alloc_from_some[of 0 s v s0] by (simp add: pool_alloc_def)
    have a: "wm_arrays_ok (snd ?r)"
      unfolding wm_arrays_ok_def using assms(1) new_title_ok[of ttl]
      by (simp add: nw lp lu wm_arrays_ok_def title_ok_def)
    have b: "titles_ok (snd ?r)"
      unfolding titles_ok_def
    proof (intro allI impI)
      fix i assume i: "i < WM_MAX_WINDOWS" and u: "poolUsed (snd ?r) ! i \<noteq> 0"
      show "title_ok (title (win_at (snd ?r) i))"
      proof (cases "i = v")
        case True
        then show ?thesis by (simp add: nw new_title_ok)
      next
        case False
        then have "poolUsed s ! i \<noteq> 0" using u by (simp add: nw)
        then show ?thesis using False assms(2) i by (simp add: nw titles_ok_def)
      qed
    qed
    have c: "fst ?r = Some w \<longrightarrow> title (win_at (snd ?r) w) = new_title ttl"
      by (simp add: nw)
    show ?thesis using a b c by blast
  qed
  show "wm_arrays_ok (snd ?r)" "titles_ok (snd ?r)"
     "fst ?r = Some w \<Longrightarrow> title (win_at (snd ?r) w) = new_title ttl"
    using all by blast+
qed

lemma set_title_result:
  assumes "w < length (pool s)"
  shows "poolUsed (WM_SetTitle (Some w) (Some cs) s) = poolUsed s"
    and "length (pool (WM_SetTitle (Some w) (Some cs) s)) = length (pool s)"
    and "title (win_at (WM_SetTitle (Some w) (Some cs) s) i) =
           (if i = w then fst (copy_title cs (title (win_at s w))) else title (win_at s i))"
  using assms by (simp_all add: WM_SetTitle_def Let_def win_at_upd_win)

lemma set_title_ok:
  assumes "wm_arrays_ok s" and "titles_ok s" and "w < WM_MAX_WINDOWS"
  shows "wm_arrays_ok (WM_SetTitle (Some w) ttl s)"
    and "titles_ok (WM_SetTitle (Some w) ttl s)"
    and "ttl = Some cs \<Longrightarrow> title_ok (title (win_at (WM_SetTitle (Some w) ttl s) w))"
    and "ttl = Some cs \<Longrightarrow>
           c_string (title (win_at (WM_SetTitle (Some w) ttl s) w)) = take WM_TITLE_MAX (c_string cs)"
proof -
  have lp: "length (pool s) = WM_MAX_WINDOWS" and lu: "length (poolUsed s) = WM_MAX_WINDOWS"
    and lt: "length (title (win_at s w)) = Suc WM_TITLE_MAX"
    using assms(1,3) by (simp_all add: wm_arrays_ok_def)
  have wl: "w < length (pool s)" using assms(3) lp by simp
  have ok: "title_ok (fst (copy_title c (title (win_at s w))))" for c
    by (intro title_ok_intro) (simp_all add: copy_title_length copy_title_terminated lt)
  show "wm_arrays_ok (WM_SetTitle (Some w) ttl s)"
  proof (cases ttl)
    case None
    then show ?thesis using assms(1) by (simp add: WM_SetTitle_def)
  next
    case (Some c)
    show ?thesis unfolding Some wm_arrays_ok_def using assms(1) ok[of c]
      by (simp add: set_title_result [OF wl] lp lu wm_arrays_ok_def title_ok_def)
  qed
  show "titles_ok (WM_SetTitle (Some w) ttl s)"
  proof (cases ttl)
    case None
    then show ?thesis using assms(2) by (simp add: WM_SetTitle_def)
  next
    case (Some c)
    show ?thesis unfolding Some titles_ok_def using assms(2) ok[of c]
      by (simp add: set_title_result [OF wl] titles_ok_def)
  qed
  show "ttl = Some cs \<Longrightarrow> title_ok (title (win_at (WM_SetTitle (Some w) ttl s) w))"
    using ok[of cs] by (simp add: set_title_result [OF wl])
  show "ttl = Some cs \<Longrightarrow>
           c_string (title (win_at (WM_SetTitle (Some w) ttl s) w)) = take WM_TITLE_MAX (c_string cs)"
    by (simp add: set_title_result [OF wl] c_string_copy_title lt)
qed

text \<open>
  C10.  Let the pool hold its 16 windows with 32-byte title arrays, every in-use window having
  a NUL-terminated title.  Then after \<^verbatim>\<open>WM_NewWindow\<close> with any title string or the null
  pointer, and after \<^verbatim>\<open>WM_SetTitle\<close> on any pool window with any string or the null pointer,
  every in-use window still has a NUL-terminated title of at most 31 characters; the window
  created or retitled holds the input truncated to 31 characters (the empty string for a
  null title in \<^verbatim>\<open>WM_NewWindow\<close>); and every index the copy writes is at most 31.
\<close>

theorem title_bounded:
  assumes "wm_arrays_ok s" and "titles_ok s"
  shows "wm_arrays_ok (snd (WM_NewWindow bounds ttl sty flgs s)) \<and>
         titles_ok (snd (WM_NewWindow bounds ttl sty flgs s)) \<and>
         (\<forall>w. fst (WM_NewWindow bounds ttl sty flgs s) = Some w \<longrightarrow>
            title_ok (title (win_at (snd (WM_NewWindow bounds ttl sty flgs s)) w)) \<and>
            c_string (title (win_at (snd (WM_NewWindow bounds ttl sty flgs s)) w)) =
              (case ttl of None \<Rightarrow> [] | Some cs \<Rightarrow> take WM_TITLE_MAX (c_string cs))) \<and>
         (\<forall>w<WM_MAX_WINDOWS.
            wm_arrays_ok (WM_SetTitle (Some w) ttl s) \<and> titles_ok (WM_SetTitle (Some w) ttl s) \<and>
            (\<forall>cs. ttl = Some cs \<longrightarrow>
               title_ok (title (win_at (WM_SetTitle (Some w) ttl s) w)) \<and>
               c_string (title (win_at (WM_SetTitle (Some w) ttl s) w)) =
                 take WM_TITLE_MAX (c_string cs))) \<and>
         WM_SetTitle None ttl s = s \<and>
         (\<forall>cs dst. length dst = Suc WM_TITLE_MAX \<longrightarrow>
            set (snd (copy_title cs dst)) \<subseteq> {0..WM_TITLE_MAX})"
  using new_window_titles_ok [OF assms] set_title_ok [OF assms] new_title_ok c_string_new_title
    copy_title_writes
  by (simp add: WM_SetTitle_def)

lemma hit_wm_arrays: "wm_arrays_ok hit_wm"
  by (auto simp: wm_arrays_ok_def hit_wm_def WM_Init_def win_at_def nth_list_update
      hit_window_def zero_window_def WM_MAX_WINDOWS_def)

lemma hit_wm_titles: "titles_ok hit_wm"
  by (auto simp: titles_ok_def hit_wm_def WM_Init_def win_at_def nth_list_update
      hit_window_def zero_window_def WM_MAX_WINDOWS_def title_ok_def c_string_def
      split: if_splits)

theorem title_bounded_witness:
  "title_ok (title (win_at (WM_SetTitle (Some 0) (Some long_title) hit_wm) 0)) \<and>
   c_string (title (win_at (WM_SetTitle (Some 0) (Some long_title) hit_wm) 0)) =
     replicate 31 0x41 \<and>
   titles_ok (snd (WM_NewWindow rect_A (Some long_title) WM_STYLE_DOCUMENT WF_VISIBLE hit_wm))"
proof -
  have c: "take WM_TITLE_MAX (c_string long_title) = replicate 31 0x41"
    by (simp add: c_string_def long_title_def WM_TITLE_MAX_def)
  have z: "(0::nat) < WM_MAX_WINDOWS" by (simp add: WM_MAX_WINDOWS_def)
  show ?thesis
    using title_bounded [OF hit_wm_arrays hit_wm_titles,
        of rect_A "Some long_title" WM_STYLE_DOCUMENT WF_VISIBLE] z c
    by simp
qed

section \<open>Z-order consistency\<close>

lemma first_of_append: "first_of (xs @ ys) = (if xs = [] then first_of ys else first_of xs)"
  by (cases xs) simp_all

lemma first_of_mem: "first_of zs = Some u \<Longrightarrow> u \<in> set zs"
  by (cases zs) auto

lemma first_of_None [simp]: "first_of zs = None \<longleftrightarrow> zs = []"
  by (cases zs) auto

lemma nxt_notin: "v \<notin> set zs \<Longrightarrow> nxt zs v = None"
  by (induction zs) auto

lemma nxt_mem: "nxt zs v = Some u \<Longrightarrow> u \<in> set zs"
  by (induction zs) (auto split: if_splits dest: first_of_mem)

lemma nxt_not_self: "distinct zs \<Longrightarrow> nxt zs v \<noteq> Some v"
  by (induction zs) (auto dest: first_of_mem nxt_mem)

lemma nxt_append:
  "distinct xs \<Longrightarrow> nxt (xs @ ys) u =
     (if first_of (rev xs) = Some u then first_of ys
      else if u \<in> set xs then nxt xs u else nxt ys u)"
proof (induction xs)
  case Nil
  then show ?case by simp
next
  case (Cons x xs)
  have last_neq: "first_of (rev xs) \<noteq> Some x" using Cons.prems by (auto dest: first_of_mem)
  show ?case
  proof (cases "u = x")
    case True
    then show ?thesis using Cons.prems last_neq by (cases xs) (auto simp: first_of_append)
  next
    case False
    then show ?thesis using Cons by (auto simp: first_of_append)
  qed
qed

lemma rev_remove1_distinct: "distinct zs \<Longrightarrow> rev (remove1 w zs) = remove1 w (rev zs)"
  by (simp add: distinct_remove1_removeAll removeAll_filter_not_eq rev_filter)

lemma nxt_split: "distinct (xs @ w # ys) \<Longrightarrow> nxt (xs @ w # ys) w = first_of ys"
  by (auto simp: nxt_append dest: first_of_mem)

lemma prv_split: "distinct (xs @ w # ys) \<Longrightarrow> prv (xs @ w # ys) w = first_of (rev xs)"
  unfolding prv_def using nxt_split [of "rev ys" w "rev xs"] by auto

lemma nxt_remove1:
  assumes "distinct zs" and "w \<in> set zs" and "u \<noteq> w"
  shows "nxt (remove1 w zs) u = (if prv zs w = Some u then nxt zs w else nxt zs u)"
proof -
  obtain xs ys where zs: "zs = xs @ w # ys" using assms(2) by (auto dest: split_list)
  have d: "distinct (xs @ w # ys)" using assms(1) zs by simp
  then have r: "remove1 w zs = xs @ ys" using zs by (simp add: remove1_append)
  have dx: "distinct xs" using d by simp
  show ?thesis
    unfolding r prv_split [OF d, unfolded zs [symmetric]] nxt_split [OF d, unfolded zs [symmetric]]
    using assms(3) by (simp add: zs nxt_append [OF dx])
qed

lemma prv_remove1:
  assumes "distinct zs" and "w \<in> set zs" and "u \<noteq> w"
  shows "prv (remove1 w zs) u = (if nxt zs w = Some u then prv zs w else prv zs u)"
  using nxt_remove1 [of "rev zs" w u] assms
  by (simp add: prv_def rev_remove1_distinct)

lemma first_of_remove1:
  assumes "distinct zs" and "w \<in> set zs"
  shows "first_of (remove1 w zs) = (if prv zs w = None then nxt zs w else first_of zs)"
proof -
  obtain xs ys where zs: "zs = xs @ w # ys" using assms(2) by (auto dest: split_list)
  have d: "distinct (xs @ w # ys)" using assms(1) zs by simp
  then have r: "remove1 w zs = xs @ ys" using zs by (simp add: remove1_append)
  show ?thesis
    unfolding r prv_split [OF d, unfolded zs [symmetric]] nxt_split [OF d, unfolded zs [symmetric]]
    by (simp add: zs first_of_append)
qed

lemma last_of_remove1:
  assumes "distinct zs" and "w \<in> set zs"
  shows "first_of (rev (remove1 w zs)) = (if nxt zs w = None then prv zs w else first_of (rev zs))"
  using first_of_remove1 [of "rev zs" w] assms by (simp add: prv_def rev_remove1_distinct)

lemma prv_mem: "prv zs v = Some u \<Longrightarrow> u \<in> set zs"
  unfolding prv_def by (auto dest: nxt_mem)

lemma prv_not_self: "distinct zs \<Longrightarrow> prv zs v \<noteq> Some v"
  unfolding prv_def by (simp add: nxt_not_self)

lemma prv_notin: "v \<notin> set zs \<Longrightarrow> prv zs v = None"
  unfolding prv_def by (simp add: nxt_notin)

lemma prv_Cons:
  "distinct (w # zs) \<Longrightarrow> prv (w # zs) u =
     (if first_of zs = Some u then Some w else if u = w then None else prv zs u)"
  unfolding prv_def by (auto simp: nxt_append nxt_notin dest: first_of_mem)

lemma nxt_snoc:
  "distinct (zs @ [w]) \<Longrightarrow> nxt (zs @ [w]) u =
     (if first_of (rev zs) = Some u then Some w else if u = w then None else nxt zs u)"
  by (auto simp: nxt_append nxt_notin dest: first_of_mem)

lemma prv_snoc: "prv (zs @ [w]) u = (if u = w then first_of (rev zs) else prv zs u)"
  by (simp add: prv_def)

lemma prv_None_iff: "distinct zs \<Longrightarrow> w \<in> set zs \<Longrightarrow> prv zs w = None \<longleftrightarrow> first_of zs = Some w"
proof -
  assume a: "distinct zs" "w \<in> set zs"
  obtain xs ys where zs: "zs = xs @ w # ys" using a(2) by (auto dest: split_list)
  have d: "distinct (xs @ w # ys)" using a(1) zs by simp
  show ?thesis unfolding zs prv_split [OF d] using d by (cases xs) auto
qed

lemma nxt_None_iff: "distinct zs \<Longrightarrow> w \<in> set zs \<Longrightarrow> nxt zs w = None \<longleftrightarrow> first_of (rev zs) = Some w"
  using prv_None_iff [of "rev zs" w] by (simp add: prv_def)


lemma prv_nxt_adjacent:
  assumes "distinct zs" and "prv zs a = Some b"
  shows "nxt zs b = Some a"
proof -
  have "a \<in> set zs" using assms(2) prv_notin by fastforce
  then obtain xs ys where zs: "zs = xs @ a # ys" by (auto dest: split_list)
  have d: "distinct (xs @ a # ys)" using assms(1) zs by simp
  have "first_of (rev xs) = Some b" using assms(2) prv_split [OF d] zs by simp
  then obtain xs' where xs: "xs = xs' @ [b]" by (cases xs rule: rev_cases) auto
  have d': "distinct (xs' @ b # (a # ys))" using d xs by simp
  show ?thesis using nxt_split [OF d'] zs xs by simp
qed

lemma walk_suffix:
  "distinct (xs @ ys) \<Longrightarrow> (\<forall>v\<in>set ys. f v = nxt (xs @ ys) v) \<Longrightarrow> length ys \<le> n \<Longrightarrow>
     walk f n (first_of ys) = Some ys"
proof (induction ys arbitrary: xs n)
  case Nil
  then show ?case by simp
next
  case (Cons y ys)
  obtain n' where n: "n = Suc n'" using Cons.prems(3) by (cases n) auto
  have fy: "f y = first_of ys" using Cons.prems(1,2) nxt_split [of xs y ys] by simp
  have "walk f n' (first_of ys) = Some ys"
    using Cons.IH [of "xs @ [y]" n'] Cons.prems n by simp
  then show ?case by (simp add: n fy)
qed

lemma walk_list:
  assumes "distinct zs" and "\<forall>v\<in>set zs. f v = nxt zs v" and "length zs \<le> n"
  shows "walk f n (first_of zs) = Some zs"
  using walk_suffix [of "[]" zs f n] assms by simp

lemma unlink_pointers:
  assumes "length (pool s) = N" and "w < N"
    and "above_w (win_at s w) = a" and "below (win_at s w) = b"
    and "a \<noteq> Some w" and "b \<noteq> Some w"
    and "\<forall>x. a = Some x \<longrightarrow> x < N" and "\<forall>x. b = Some x \<longrightarrow> x < N"
  shows "topWindow (zorder_unlink w s) = (if a = None then b else topWindow s)"
    and "bottomWindow (zorder_unlink w s) = (if b = None then a else bottomWindow s)"
    and "v < N \<Longrightarrow> above_w (win_at (zorder_unlink w s) v) =
           (if v = w then None else if b = Some v then a else above_w (win_at s v))"
    and "v < N \<Longrightarrow> below (win_at (zorder_unlink w s) v) =
           (if v = w then None else if a = Some v then b else below (win_at s v))"
  using assms
  by (cases a; cases b; simp add: zorder_unlink_def Let_def win_at_upd_win)+

lemma push_top_pointers:
  assumes "length (pool s) = N" and "w < N"
    and "\<forall>x. topWindow s = Some x \<longrightarrow> x < N \<and> x \<noteq> w"
  shows "topWindow (zorder_push_top w s) = Some w"
    and "bottomWindow (zorder_push_top w s) =
           (if bottomWindow s = None then Some w else bottomWindow s)"
    and "v < N \<Longrightarrow> above_w (win_at (zorder_push_top w s) v) =
           (if v = w then None else if topWindow s = Some v then Some w
            else above_w (win_at s v))"
    and "v < N \<Longrightarrow> below (win_at (zorder_push_top w s) v) =
           (if v = w then topWindow s else below (win_at s v))"
  using assms
  by (cases "topWindow s"; simp add: zorder_push_top_def Let_def win_at_upd_win)+


lemma linked_cong:
  assumes "linked s zs"
    and "topWindow s' = topWindow s" and "bottomWindow s' = bottomWindow s"
    and "\<And>v. v < WM_MAX_WINDOWS \<Longrightarrow> above_w (win_at s' v) = above_w (win_at s v)"
    and "\<And>v. v < WM_MAX_WINDOWS \<Longrightarrow> below (win_at s' v) = below (win_at s v)"
  shows "linked s' zs"
  using assms by (simp add: linked_def)

lemma linked_unlink:
  assumes len: "length (pool s) = WM_MAX_WINDOWS" and l: "linked s zs" and w: "w \<in> set zs"
  shows "linked (zorder_unlink w s) (remove1 w zs)"
proof -
  have d: "distinct zs" and r: "\<And>v. v \<in> set zs \<Longrightarrow> v < WM_MAX_WINDOWS"
    and t: "topWindow s = first_of zs" and b: "bottomWindow s = first_of (rev zs)"
    and ab: "\<And>v. v < WM_MAX_WINDOWS \<Longrightarrow> above_w (win_at s v) = prv zs v"
    and be: "\<And>v. v < WM_MAX_WINDOWS \<Longrightarrow> below (win_at s v) = nxt zs v"
    using l by (simp_all add: linked_def)
  have wr: "w < WM_MAX_WINDOWS" using r w by simp
  have pm: "\<forall>x. prv zs w = Some x \<longrightarrow> x < WM_MAX_WINDOWS" using r prv_mem by blast
  have nm: "\<forall>x. nxt zs w = Some x \<longrightarrow> x < WM_MAX_WINDOWS" using r nxt_mem by blast
  note up = unlink_pointers [OF len wr ab [OF wr] be [OF wr] prv_not_self [OF d]
      nxt_not_self [OF d] pm nm]
  show ?thesis unfolding linked_def
  proof (intro conjI ballI allI impI)
    show "distinct (remove1 w zs)" using d by simp
    show "v < WM_MAX_WINDOWS" if "v \<in> set (remove1 w zs)" for v
      using that d r by simp
    show "topWindow (zorder_unlink w s) = first_of (remove1 w zs)"
      using up(1) t d w by (simp add: first_of_remove1 prv_None_iff)
    show "bottomWindow (zorder_unlink w s) = first_of (rev (remove1 w zs))"
      using up(2) b d w by (simp add: last_of_remove1 nxt_None_iff)
    show "above_w (win_at (zorder_unlink w s) v) = prv (remove1 w zs) v" if "v < WM_MAX_WINDOWS" for v
      using up(3) [OF that] ab [OF that] d w
      by (cases "v = w") (simp_all add: prv_remove1 prv_notin)
    show "below (win_at (zorder_unlink w s) v) = nxt (remove1 w zs) v" if "v < WM_MAX_WINDOWS" for v
      using up(4) [OF that] be [OF that] d w
      by (cases "v = w") (simp_all add: nxt_remove1 nxt_notin)
  qed
qed

lemma nxt_Cons_new: "nxt (w # zs) v = (if v = w then first_of zs else nxt zs v)"
  by simp

lemma linked_push_top:
  assumes len: "length (pool s) = WM_MAX_WINDOWS" and l: "linked s zs"
    and w: "w \<notin> set zs" and wr: "w < WM_MAX_WINDOWS"
  shows "linked (zorder_push_top w s) (w # zs)"
proof -
  have d: "distinct zs" and r: "\<And>v. v \<in> set zs \<Longrightarrow> v < WM_MAX_WINDOWS"
    and t: "topWindow s = first_of zs" and b: "bottomWindow s = first_of (rev zs)"
    and ab: "\<And>v. v < WM_MAX_WINDOWS \<Longrightarrow> above_w (win_at s v) = prv zs v"
    and be: "\<And>v. v < WM_MAX_WINDOWS \<Longrightarrow> below (win_at s v) = nxt zs v"
    using l by (simp_all add: linked_def)
  have tp: "\<forall>x. topWindow s = Some x \<longrightarrow> x < WM_MAX_WINDOWS \<and> x \<noteq> w"
    using t r w first_of_mem [of zs] by auto
  note pp = push_top_pointers [of s WM_MAX_WINDOWS w, OF len wr tp]
  have dw: "distinct (w # zs)" using d w by simp
  show ?thesis unfolding linked_def
  proof (intro conjI ballI allI impI)
    show "distinct (w # zs)" by (rule dw)
    show "v < WM_MAX_WINDOWS" if "v \<in> set (w # zs)" for v using that r wr by auto
    show "topWindow (zorder_push_top w s) = first_of (w # zs)" using pp(1) by simp
    show "bottomWindow (zorder_push_top w s) = first_of (rev (w # zs))"
      using pp(2) b by (simp add: first_of_append)
    show "above_w (win_at (zorder_push_top w s) v) = prv (w # zs) v" if "v < WM_MAX_WINDOWS" for v
      using pp(3) [OF that] ab [OF that] t w
      by (auto simp: prv_Cons [OF dw] dest: first_of_mem)
    show "below (win_at (zorder_push_top w s) v) = nxt (w # zs) v" if "v < WM_MAX_WINDOWS" for v
      using pp(4) [OF that] be [OF that] t by simp
  qed
qed


lemma pool_alloc_from_find:
  "fst (pool_alloc_from i s) = find (\<lambda>j. poolUsed s ! j = 0) [i..<WM_MAX_WINDOWS]"
proof (induction i s rule: pool_alloc_from.induct)
  case (1 i s)
  show ?case
  proof (cases "i < WM_MAX_WINDOWS")
    case True
    then have u: "[i..<WM_MAX_WINDOWS] = i # [Suc i..<WM_MAX_WINDOWS]" by (simp add: upt_conv_Cons)
    show ?thesis
    proof (cases "poolUsed s ! i = 0")
      case free: True
      then show ?thesis using True unfolding u by (subst pool_alloc_from.simps) simp
    next
      case used: False
      then show ?thesis using True 1 unfolding u by (subst pool_alloc_from.simps) simp
    qed
  next
    case False
    then show ?thesis by (subst pool_alloc_from.simps) simp
  qed
qed

lemma zinv_alloc_find:
  assumes "zinv s zs"
  shows "fst (pool_alloc s) = find (\<lambda>i. i \<notin> set zs) [0..<WM_MAX_WINDOWS]"
proof -
  have "find (\<lambda>j. poolUsed s ! j = 0) [0..<WM_MAX_WINDOWS] =
        find (\<lambda>i. i \<notin> set zs) [0..<WM_MAX_WINDOWS]"
    using assms by (intro find_cong) (auto simp: zinv_def)
  then show ?thesis by (simp add: pool_alloc_def pool_alloc_from_find)
qed

lemma new_window_links:
  assumes pa: "pool_alloc s = (Some w, s0)" and len: "length (pool s) = WM_MAX_WINDOWS"
    and l: "linked s zs" and w: "w \<notin> set zs"
  shows "linked (snd (WM_NewWindow bounds ttl sty flgs s)) (w # zs)"
    and "win_id (win_at (snd (WM_NewWindow bounds ttl sty flgs s)) v) =
           (if v = w then of_nat w else win_id (win_at s v))"
proof -
  from pa have wr: "w < WM_MAX_WINDOWS"
    and s0: "s0 = s\<lparr>poolUsed := (poolUsed s)[w := 1], windowCount := windowCount s + 1,
            pool := (pool s)[w := zero_window\<lparr>win_id := of_nat w\<rparr>]\<rparr>"
    using pool_alloc_from_some[of 0 s w s0] by (auto simp: pool_alloc_def)
  have wl: "w < length (pool s)" using wr len by simp
  define s1 where "s1 = upd_win w (\<lambda>x. x\<lparr>frame := rect_clip_to_screen bounds\<rparr>) s0"
  define s2 where "s2 = upd_win w (\<lambda>x. x\<lparr>style := style_code sty, flags := flgs\<rparr>) s1"
  define s3 where "s3 = (case ttl of None \<Rightarrow> s2
       | Some cs \<Rightarrow> upd_win w (\<lambda>x. x\<lparr>title := fst (copy_title cs (title x))\<rparr>) s2)"
  define s4 where "s4 = (if sty = WM_STYLE_DOCUMENT
                     then upd_win w (\<lambda>x. x\<lparr>flags := flags x OR WF_HAS_CLOSE\<rparr>) s3 else s3)"
  define s5 where "s5 = (if sty = WM_STYLE_DIALOG \<or> sty = WM_STYLE_ALERT
                     then upd_win w (\<lambda>x. x\<lparr>flags := flags x OR WF_MODAL\<rparr>) s4 else s4)"
  define s6 where "s6 = upd_win w compute_window_rects s5"
  define s7 where "s7 = zorder_push_top w s6"
  define s8 where "s8 = (case activeWindow s7 of
                       Some a \<Rightarrow> upd_win a (\<lambda>x. x\<lparr>flags := flags x AND NOT WF_HILITED\<rparr>) s7
                     | None \<Rightarrow> s7)"
  define s10 where "s10 = upd_win w (\<lambda>x. x\<lparr>flags := flags x OR WF_HILITED\<rparr>) (s8\<lparr>activeWindow := Some w\<rparr>)"
  define s11 where "s11 = (if flgs AND WF_VISIBLE \<noteq> 0 then WM_InvalidateWindow (Some w) s10 else s10)"
  have res: "WM_NewWindow bounds ttl sty flgs s = (Some w, s11)"
    unfolding WM_NewWindow_def s11_def s10_def s8_def s7_def s6_def s5_def s4_def s3_def s2_def s1_def
    by (simp only: pa Let_def prod.case option.case)
  have pw: "prv zs w = None" "nxt zs w = None" using w by (simp_all add: prv_notin nxt_notin)
  have l0: "linked s0 zs"
  proof (rule linked_cong [OF l])
    show "topWindow s0 = topWindow s" "bottomWindow s0 = bottomWindow s" by (simp_all add: s0)
    show "above_w (win_at s0 v) = above_w (win_at s v)" if "v < WM_MAX_WINDOWS" for v
      using l wr wl pw by (cases "v = w") (simp_all add: s0 win_at_def zero_window_def linked_def)
    show "below (win_at s0 v) = below (win_at s v)" if "v < WM_MAX_WINDOWS" for v
      using l wr wl pw by (cases "v = w") (simp_all add: s0 win_at_def zero_window_def linked_def)
  qed
  have l6: "linked s6 zs"
    by (rule linked_cong [OF l0])
       (simp_all add: s6_def s5_def s4_def s3_def s2_def s1_def upd_win_keeps_above
         upd_win_keeps_below split: option.splits)
  have len6: "length (pool s6) = WM_MAX_WINDOWS"
    using len by (simp add: s6_def s5_def s4_def s3_def s2_def s1_def s0 split: option.splits)
  have l7: "linked s7 (w # zs)" unfolding s7_def by (rule linked_push_top [OF len6 l6 w wr])
  have l11: "linked s11 (w # zs)"
    by (rule linked_cong [OF l7])
       (simp_all add: s11_def s10_def s8_def upd_win_keeps_above upd_win_keeps_below
         split: option.splits)
  show "linked (snd (WM_NewWindow bounds ttl sty flgs s)) (w # zs)" by (simp add: res l11)
  have "win_id (win_at s11 v) = win_id (win_at s0 v)"
    by (simp add: s11_def s10_def s8_def s7_def s6_def s5_def s4_def s3_def s2_def s1_def
        upd_win_keeps_id split: option.splits)
  also have "\<dots> = (if v = w then of_nat w else win_id (win_at s v))"
    using wl by (simp add: s0 win_at_def)
  finally show "win_id (win_at (snd (WM_NewWindow bounds ttl sty flgs s)) v) =
           (if v = w then of_nat w else win_id (win_at s v))"
    by (simp add: res)
qed

lemma zinv_new:
  assumes "zinv s zs"
  shows "zinv (wm_call_step (NewWindow b t st f) s) (zlist_step (NewWindow b t st f) zs)"
proof -
  have len: "length (pool s) = WM_MAX_WINDOWS" and lu: "length (poolUsed s) = WM_MAX_WINDOWS"
    and l: "linked s zs"
    and used: "\<And>i. i < WM_MAX_WINDOWS \<Longrightarrow> poolUsed s ! i \<noteq> 0 \<longleftrightarrow> i \<in> set zs"
    and ids: "\<And>i. i \<in> set zs \<Longrightarrow> win_id (win_at s i) = of_nat i"
    using assms by (simp_all add: zinv_def)
  obtain r s0 where pa: "pool_alloc s = (r, s0)" by (cases "pool_alloc s")
  have fnd: "find (\<lambda>i. i \<notin> set zs) [0..<WM_MAX_WINDOWS] = r"
    using zinv_alloc_find [OF assms] pa by simp
  show ?thesis
  proof (cases r)
    case None
    then have "s0 = s" using pa pool_alloc_from_none by (simp add: pool_alloc_def)
    then have "WM_NewWindow b t st f s = (None, s)" using pa None by (simp add: WM_NewWindow_def)
    then show ?thesis using assms fnd None by simp
  next
    case (Some w)
    then have pa': "pool_alloc s = (Some w, s0)" using pa by simp
    have wr: "w < WM_MAX_WINDOWS" and free: "poolUsed s ! w = 0"
      using pa' pool_alloc_from_some[of 0 s w s0] by (simp_all add: pool_alloc_def)
    have w: "w \<notin> set zs" using used [OF wr] free by simp
    note nr = new_window_result [OF pa' len, of b t st f]
    note nl = new_window_links [OF pa' len l w, of b t st f]
    have "zinv (snd (WM_NewWindow b t st f s)) (w # zs)"
      unfolding zinv_def
    proof (intro conjI allI impI ballI)
      show "length (pool (snd (WM_NewWindow b t st f s))) = WM_MAX_WINDOWS" by (simp add: nr len)
      show "length (poolUsed (snd (WM_NewWindow b t st f s))) = WM_MAX_WINDOWS" by (simp add: nr lu)
      show "linked (snd (WM_NewWindow b t st f s)) (w # zs)" by (rule nl(1))
      show "(poolUsed (snd (WM_NewWindow b t st f s)) ! i \<noteq> 0) = (i \<in> set (w # zs))"
        if "i < WM_MAX_WINDOWS" for i
        using that used [OF that] lu wr by (cases "i = w") (simp_all add: nr)
      show "win_id (win_at (snd (WM_NewWindow b t st f s)) i) = of_nat i" if "i \<in> set (w # zs)" for i
        using that ids by (auto simp: nl(2))
    qed
    then show ?thesis using fnd Some by simp
  qed
qed


lemma send_to_back_unfold:
  "WM_SendToBack (Some w) s =
     (if Some w = bottomWindow s then s
      else WM_InvalidateRect
             (Some (frame (win_at (zorder_push_bottom w (zorder_unlink w s)) w)))
             (zorder_push_bottom w (zorder_unlink w s)))"
  by (simp add: WM_SendToBack_def zorder_push_bottom_def Let_def)

lemma push_bottom_fields [simp]:
  "poolUsed (zorder_push_bottom w s) = poolUsed s"
  "windowCount (zorder_push_bottom w s) = windowCount s"
  "activeWindow (zorder_push_bottom w s) = activeWindow s"
  "length (pool (zorder_push_bottom w s)) = length (pool s)"
  "win_id (win_at (zorder_push_bottom w s) i) = win_id (win_at s i)"
  by (simp_all add: zorder_push_bottom_def Let_def upd_win_keeps_id split: option.splits)

lemma push_bottom_pointers:
  assumes "length (pool s) = N" and "w < N"
    and "\<forall>x. bottomWindow s = Some x \<longrightarrow> x < N \<and> x \<noteq> w"
  shows "bottomWindow (zorder_push_bottom w s) = Some w"
    and "topWindow (zorder_push_bottom w s) =
           (if topWindow s = None then Some w else topWindow s)"
    and "v < N \<Longrightarrow> below (win_at (zorder_push_bottom w s) v) =
           (if v = w then None else if bottomWindow s = Some v then Some w
            else below (win_at s v))"
    and "v < N \<Longrightarrow> above_w (win_at (zorder_push_bottom w s) v) =
           (if v = w then bottomWindow s else above_w (win_at s v))"
  using assms
  by (cases "bottomWindow s"; simp add: zorder_push_bottom_def Let_def win_at_upd_win)+

lemma linked_push_bottom:
  assumes len: "length (pool s) = WM_MAX_WINDOWS" and l: "linked s zs"
    and w: "w \<notin> set zs" and wr: "w < WM_MAX_WINDOWS"
  shows "linked (zorder_push_bottom w s) (zs @ [w])"
proof -
  have d: "distinct zs" and r: "\<And>v. v \<in> set zs \<Longrightarrow> v < WM_MAX_WINDOWS"
    and t: "topWindow s = first_of zs" and b: "bottomWindow s = first_of (rev zs)"
    and ab: "\<And>v. v < WM_MAX_WINDOWS \<Longrightarrow> above_w (win_at s v) = prv zs v"
    and be: "\<And>v. v < WM_MAX_WINDOWS \<Longrightarrow> below (win_at s v) = nxt zs v"
    using l by (simp_all add: linked_def)
  have bp: "\<forall>x. bottomWindow s = Some x \<longrightarrow> x < WM_MAX_WINDOWS \<and> x \<noteq> w"
    using b r w first_of_mem [of "rev zs"] by auto
  note pp = push_bottom_pointers [of s WM_MAX_WINDOWS w, OF len wr bp]
  have dw: "distinct (zs @ [w])" using d w by simp
  show ?thesis unfolding linked_def
  proof (intro conjI ballI allI impI)
    show "distinct (zs @ [w])" by (rule dw)
    show "v < WM_MAX_WINDOWS" if "v \<in> set (zs @ [w])" for v using that r wr by auto
    show "topWindow (zorder_push_bottom w s) = first_of (zs @ [w])"
      using pp(2) t by (simp add: first_of_append)
    show "bottomWindow (zorder_push_bottom w s) = first_of (rev (zs @ [w]))" using pp(1) by simp
    show "above_w (win_at (zorder_push_bottom w s) v) = prv (zs @ [w]) v" if "v < WM_MAX_WINDOWS" for v
      using pp(4) [OF that] ab [OF that] b by (simp add: prv_snoc)
    show "below (win_at (zorder_push_bottom w s) v) = nxt (zs @ [w]) v" if "v < WM_MAX_WINDOWS" for v
      using pp(3) [OF that] be [OF that] b w
      by (auto simp: nxt_snoc [OF dw] dest: first_of_mem)
  qed
qed

lemma get_window_zinv:
  assumes "zinv s zs"
  shows "WM_GetWindowById i s = (if unat i \<in> set zs then Some (unat i) else None)"
  using assms by (auto simp: WM_GetWindowById_def zinv_def linked_def)

lemma unat_of_nat_pool: "w < WM_MAX_WINDOWS \<Longrightarrow> unat (of_nat w :: 8 word) = w"
  by (simp add: unat_of_nat WM_MAX_WINDOWS_def)

lemma remove1_first: "first_of zs = Some w \<Longrightarrow> w # remove1 w zs = zs"
  by (cases zs) auto

lemma remove1_last: "distinct zs \<Longrightarrow> first_of (rev zs) = Some w \<Longrightarrow> remove1 w zs @ [w] = zs"
  by (cases zs rule: rev_cases) (auto simp: remove1_append)

lemma zinv_dispose:
  assumes "zinv s zs"
  shows "zinv (wm_call_step (DisposeWindow i) s) (zlist_step (DisposeWindow i) zs)"
proof (cases "unat i \<in> set zs")
  case False
  then show ?thesis using assms
    by (simp add: get_window_zinv [OF assms] WM_DisposeWindow_def remove1_idem)
next
  case True
  define w where "w = unat i"
  have w: "w \<in> set zs" using True by (simp add: w_def)
  have len: "length (pool s) = WM_MAX_WINDOWS" and lu: "length (poolUsed s) = WM_MAX_WINDOWS"
    and l: "linked s zs"
    and used: "\<And>i. i < WM_MAX_WINDOWS \<Longrightarrow> poolUsed s ! i \<noteq> 0 \<longleftrightarrow> i \<in> set zs"
    and ids: "\<And>i. i \<in> set zs \<Longrightarrow> win_id (win_at s i) = of_nat i"
    using assms by (simp_all add: zinv_def)
  have d: "distinct zs" and wr: "w < WM_MAX_WINDOWS" using l w by (simp_all add: linked_def)
  define s1 where "s1 = WM_InvalidateRect (Some (frame (win_at s w))) s"
  define s2 where "s2 = zorder_unlink w s1"
  define s3 where "s3 = (if activeWindow s2 = Some w then
                       (let s' = s2\<lparr>activeWindow := topWindow s2\<rparr> in
                        case activeWindow s' of
                          Some a \<Rightarrow> upd_win a (\<lambda>x. x\<lparr>flags := flags x OR WF_HILITED\<rparr>) s'
                        | None \<Rightarrow> s')
                     else s2)"
  have res: "WM_DisposeWindow (Some w) s = pool_free (Some w) s3"
    by (simp add: WM_DisposeWindow_def s3_def s2_def s1_def Let_def)
  have l1: "linked s1 zs" by (rule linked_cong [OF l]) (simp_all add: s1_def)
  have len1: "length (pool s1) = WM_MAX_WINDOWS" using len by (simp add: s1_def)
  have l2: "linked s2 (remove1 w zs)" unfolding s2_def by (rule linked_unlink [OF len1 l1 w])
  have l3: "linked s3 (remove1 w zs)"
    by (rule linked_cong [OF l2])
       (simp_all add: s3_def Let_def upd_win_keeps_above upd_win_keeps_below split: option.splits)
  have id3: "win_id (win_at s3 v) = win_id (win_at s v)" for v
    by (simp add: s3_def s2_def s1_def Let_def upd_win_keeps_id split: option.splits)
  have u3: "poolUsed s3 = poolUsed s" and len3: "length (pool s3) = WM_MAX_WINDOWS"
    using len by (simp_all add: s3_def s2_def s1_def Let_def split: option.splits)
  have idw: "unat (win_id (win_at s3 w)) = w"
    using ids [OF w] wr by (simp add: id3 unat_of_nat_pool)
  have fr: "pool_free (Some w) s3 =
      s3\<lparr>poolUsed := (poolUsed s)[w := 0], windowCount := windowCount s3 - 1\<rparr>"
    using wr by (simp add: pool_free_def idw u3)
  have "zinv (pool_free (Some w) s3) (remove1 w zs)"
    unfolding zinv_def fr
  proof (intro conjI allI impI ballI)
    show "length (pool (s3\<lparr>poolUsed := (poolUsed s)[w := 0], windowCount := windowCount s3 - 1\<rparr>))
        = WM_MAX_WINDOWS" by (simp add: len3)
    show "length (poolUsed (s3\<lparr>poolUsed := (poolUsed s)[w := 0], windowCount := windowCount s3 - 1\<rparr>))
        = WM_MAX_WINDOWS" by (simp add: lu)
    show "linked (s3\<lparr>poolUsed := (poolUsed s)[w := 0], windowCount := windowCount s3 - 1\<rparr>)
        (remove1 w zs)"
      by (rule linked_cong [OF l3]) (simp_all add: win_at_def)
    show "(poolUsed (s3\<lparr>poolUsed := (poolUsed s)[w := 0], windowCount := windowCount s3 - 1\<rparr>) ! j
        \<noteq> 0) = (j \<in> set (remove1 w zs))" if "j < WM_MAX_WINDOWS" for j
      using that used [OF that] lu wr d by (cases "j = w") simp_all
    show "win_id (win_at (s3\<lparr>poolUsed := (poolUsed s)[w := 0],
        windowCount := windowCount s3 - 1\<rparr>) j) = of_nat j" if "j \<in> set (remove1 w zs)" for j
    proof -
      have "j \<in> set zs" using that by (meson notin_set_remove1)
      then show ?thesis using ids id3 by (simp add: win_at_def)
    qed
  qed
  moreover have "WM_GetWindowById i s = Some w"
    using True by (simp add: get_window_zinv [OF assms] w_def)
  ultimately show ?thesis by (simp add: res w_def [symmetric])
qed

lemma zinv_select:
  assumes "zinv s zs"
  shows "zinv (wm_call_step (SelectWindow i) s) (zlist_step (SelectWindow i) zs)"
proof (cases "unat i \<in> set zs")
  case False
  then show ?thesis using assms by (simp add: get_window_zinv [OF assms] WM_SelectWindow_def)
next
  case True
  define w where "w = unat i"
  have w: "w \<in> set zs" using True by (simp add: w_def)
  have len: "length (pool s) = WM_MAX_WINDOWS" and lu: "length (poolUsed s) = WM_MAX_WINDOWS"
    and l: "linked s zs"
    and used: "\<And>i. i < WM_MAX_WINDOWS \<Longrightarrow> poolUsed s ! i \<noteq> 0 \<longleftrightarrow> i \<in> set zs"
    and ids: "\<And>i. i \<in> set zs \<Longrightarrow> win_id (win_at s i) = of_nat i"
    using assms by (simp_all add: zinv_def)
  have d: "distinct zs" and wr: "w < WM_MAX_WINDOWS" and t: "topWindow s = first_of zs"
    using l w by (simp_all add: linked_def)
  show ?thesis
  proof (cases "Some w = topWindow s")
    case top: True
    then have "w # remove1 w zs = zs" using t by (simp add: remove1_first)
    moreover have "WM_SelectWindow (Some w) s = s"
      using top [symmetric] by (simp add: WM_SelectWindow_def)
    moreover have "WM_GetWindowById i s = Some w"
      using True by (simp add: get_window_zinv [OF assms] w_def)
    ultimately show ?thesis using assms w by (simp add: w_def [symmetric])
  next
    case nottop: False
    define s1 where "s1 = (case activeWindow s of
                         Some a \<Rightarrow>
                           WM_InvalidateWindow (Some a)
                             (upd_win a (\<lambda>x. x\<lparr>flags := flags x AND NOT WF_HILITED\<rparr>) s)
                       | None \<Rightarrow> s)"
    define s2 where "s2 = zorder_unlink w s1"
    define s3 where "s3 = zorder_push_top w s2"
    define s6 where "s6 = WM_InvalidateWindow (Some w)
       (upd_win w (\<lambda>x. x\<lparr>flags := flags x OR WF_HILITED\<rparr>) (s3\<lparr>activeWindow := Some w\<rparr>))"
    have res: "WM_SelectWindow (Some w) s = s6"
      using nottop by (simp add: WM_SelectWindow_def s6_def s3_def s2_def s1_def Let_def)
    have l1: "linked s1 zs"
      by (rule linked_cong [OF l])
         (simp_all add: s1_def upd_win_keeps_above upd_win_keeps_below split: option.splits)
    have len1: "length (pool s1) = WM_MAX_WINDOWS"
      using len by (simp add: s1_def split: option.splits)
    have l2: "linked s2 (remove1 w zs)" unfolding s2_def by (rule linked_unlink [OF len1 l1 w])
    have len2: "length (pool s2) = WM_MAX_WINDOWS" using len1 by (simp add: s2_def)
    have wn: "w \<notin> set (remove1 w zs)" using d by simp
    have l3: "linked s3 (w # remove1 w zs)"
      unfolding s3_def by (rule linked_push_top [OF len2 l2 wn wr])
    have l6: "linked s6 (w # remove1 w zs)"
      by (rule linked_cong [OF l3])
         (simp_all add: s6_def upd_win_keeps_above upd_win_keeps_below)
    have id6: "win_id (win_at s6 v) = win_id (win_at s v)" for v
      by (simp add: s6_def s3_def s2_def s1_def upd_win_keeps_id split: option.splits)
    have u6: "poolUsed s6 = poolUsed s" and len6: "length (pool s6) = WM_MAX_WINDOWS"
      using len by (simp_all add: s6_def s3_def s2_def s1_def split: option.splits)
    have st: "set (w # remove1 w zs) = set zs" using w d by auto
    have "zinv s6 (w # remove1 w zs)"
      unfolding zinv_def st using l6 used ids by (simp add: u6 len6 lu id6)
    moreover have "WM_GetWindowById i s = Some w"
      using True by (simp add: get_window_zinv [OF assms] w_def)
    ultimately show ?thesis using w by (simp add: res w_def [symmetric])
  qed
qed

lemma zinv_send_to_back:
  assumes "zinv s zs"
  shows "zinv (wm_call_step (SendToBack i) s) (zlist_step (SendToBack i) zs)"
proof (cases "unat i \<in> set zs")
  case False
  then show ?thesis using assms by (simp add: get_window_zinv [OF assms] WM_SendToBack_def)
next
  case True
  define w where "w = unat i"
  have w: "w \<in> set zs" using True by (simp add: w_def)
  have len: "length (pool s) = WM_MAX_WINDOWS" and lu: "length (poolUsed s) = WM_MAX_WINDOWS"
    and l: "linked s zs"
    and used: "\<And>i. i < WM_MAX_WINDOWS \<Longrightarrow> poolUsed s ! i \<noteq> 0 \<longleftrightarrow> i \<in> set zs"
    and ids: "\<And>i. i \<in> set zs \<Longrightarrow> win_id (win_at s i) = of_nat i"
    using assms by (simp_all add: zinv_def)
  have d: "distinct zs" and wr: "w < WM_MAX_WINDOWS" and b: "bottomWindow s = first_of (rev zs)"
    using l w by (simp_all add: linked_def)
  show ?thesis
  proof (cases "Some w = bottomWindow s")
    case bot: True
    then have "remove1 w zs @ [w] = zs" using b d by (simp add: remove1_last)
    moreover have "WM_SendToBack (Some w) s = s"
      using bot [symmetric] by (simp add: send_to_back_unfold)
    moreover have "WM_GetWindowById i s = Some w"
      using True by (simp add: get_window_zinv [OF assms] w_def)
    ultimately show ?thesis using assms w by (simp add: w_def [symmetric])
  next
    case notbot: False
    define s2 where "s2 = zorder_push_bottom w (zorder_unlink w s)"
    define s3 where "s3 = WM_InvalidateRect (Some (frame (win_at s2 w))) s2"
    have res: "WM_SendToBack (Some w) s = s3"
      using notbot by (simp add: send_to_back_unfold s3_def s2_def)
    have l1: "linked (zorder_unlink w s) (remove1 w zs)" by (rule linked_unlink [OF len l w])
    have len1: "length (pool (zorder_unlink w s)) = WM_MAX_WINDOWS" using len by simp
    have wn: "w \<notin> set (remove1 w zs)" using d by simp
    have l2: "linked s2 (remove1 w zs @ [w])"
      unfolding s2_def by (rule linked_push_bottom [OF len1 l1 wn wr])
    have l3: "linked s3 (remove1 w zs @ [w])"
      by (rule linked_cong [OF l2]) (simp_all add: s3_def)
    have id3: "win_id (win_at s3 v) = win_id (win_at s v)" for v
      by (simp add: s3_def s2_def)
    have u3: "poolUsed s3 = poolUsed s" and len3: "length (pool s3) = WM_MAX_WINDOWS"
      using len by (simp_all add: s3_def s2_def)
    have st: "set (remove1 w zs @ [w]) = set zs" using w d by auto
    have "zinv s3 (remove1 w zs @ [w])"
      unfolding zinv_def st using l3 used ids by (simp add: u3 len3 lu id3)
    moreover have "WM_GetWindowById i s = Some w"
      using True by (simp add: get_window_zinv [OF assms] w_def)
    ultimately show ?thesis using w by (simp add: res w_def [symmetric])
  qed
qed


lemma zinv_step: "zinv s zs \<Longrightarrow> zinv (wm_call_step c s) (zlist_step c zs)"
  by (cases c) (simp_all only: zinv_new zinv_dispose zinv_select zinv_send_to_back)

lemma zinv_run: "zinv s zs \<Longrightarrow> zinv (run_calls cs s) (zlist_run cs zs)"
  by (induction cs arbitrary: s zs) (simp_all add: zinv_step)

lemma zinv_init: "zinv WM_Init []"
  by (simp add: zinv_def linked_def WM_Init_def win_at_def prv_def zero_window_def)

lemma first_of_hd: "zs \<noteq> [] \<Longrightarrow> first_of zs = Some (hd zs)"
  by (cases zs) auto

lemma first_of_rev_last: "zs \<noteq> [] \<Longrightarrow> first_of (rev zs) = Some (last zs)"
  by (cases zs rule: rev_cases) auto

lemma zinv_walks:
  assumes "zinv s zs"
  shows "walk_below s = Some zs" and "walk_above s = Some (rev zs)"
proof -
  have l: "linked s zs" using assms by (simp add: zinv_def)
  have d: "distinct zs" and r: "\<And>v. v \<in> set zs \<Longrightarrow> v < WM_MAX_WINDOWS"
    and t: "topWindow s = first_of zs" and b: "bottomWindow s = first_of (rev zs)"
    and ab: "\<And>v. v < WM_MAX_WINDOWS \<Longrightarrow> above_w (win_at s v) = prv zs v"
    and be: "\<And>v. v < WM_MAX_WINDOWS \<Longrightarrow> below (win_at s v) = nxt zs v"
    using l by (simp_all add: linked_def)
  have lz: "length zs \<le> WM_MAX_WINDOWS"
  proof -
    have "set zs \<subseteq> {0..<WM_MAX_WINDOWS}" using r by auto
    then have "card (set zs) \<le> card {0..<WM_MAX_WINDOWS}" by (intro card_mono) simp_all
    then show ?thesis using d by (simp add: distinct_card)
  qed
  show "walk_below s = Some zs"
    unfolding walk_below_def t using be r by (intro walk_list d lz) simp
  show "walk_above s = Some (rev zs)"
    unfolding walk_above_def b using ab r d lz by (intro walk_list) (simp_all add: prv_def)
qed

lemma zinv_consistent:
  assumes "zinv s zs"
  shows "zorder_consistent s"
proof -
  have l: "linked s zs"
    and used: "\<And>i. i < WM_MAX_WINDOWS \<Longrightarrow> poolUsed s ! i \<noteq> 0 \<longleftrightarrow> i \<in> set zs"
    using assms by (simp_all add: zinv_def)
  have d: "distinct zs" and r: "\<And>v. v \<in> set zs \<Longrightarrow> v < WM_MAX_WINDOWS"
    and t: "topWindow s = first_of zs" and b: "bottomWindow s = first_of (rev zs)"
    and ab: "\<And>v. v < WM_MAX_WINDOWS \<Longrightarrow> above_w (win_at s v) = prv zs v"
    and be: "\<And>v. v < WM_MAX_WINDOWS \<Longrightarrow> below (win_at s v) = nxt zs v"
    using l by (simp_all add: linked_def)
  have mutual: "b' < WM_MAX_WINDOWS \<and> below (win_at s b') = Some a"
    if "a < WM_MAX_WINDOWS" and "above_w (win_at s a) = Some b'" for a b'
  proof -
    have p: "prv zs a = Some b'" using that ab by simp
    then have "b' \<in> set zs" by (rule prv_mem)
    then have "b' < WM_MAX_WINDOWS" by (rule r)
    moreover have "nxt zs b' = Some a" using d p by (rule prv_nxt_adjacent)
    ultimately show ?thesis using be by simp
  qed
  have st: "set zs = {i. i < WM_MAX_WINDOWS \<and> poolUsed s ! i \<noteq> 0}"
    using used r by auto
  have ends: "(zs = [] \<and> topWindow s = None \<and> bottomWindow s = None) \<or>
          (zs \<noteq> [] \<and> topWindow s = Some (hd zs) \<and> bottomWindow s = Some (last zs))"
    using t b by (cases "zs = []") (simp_all add: first_of_hd hd_rev)
  show ?thesis unfolding zorder_consistent_def
    using mutual zinv_walks [OF assms] d st ends by blast
qed

text \<open>
  C2.  Start from \<^verbatim>\<open>WM_Init\<close> and run any sequence of \<^verbatim>\<open>WM_NewWindow\<close>, \<^verbatim>\<open>WM_DisposeWindow\<close>,
  \<^verbatim>\<open>WM_SelectWindow\<close> and \<^verbatim>\<open>WM_SendToBack\<close> calls whose window arguments come from
  \<^verbatim>\<open>WM_GetWindowById\<close>.  Afterwards the pointers are mutually consistent (if A.above is B then
  B.below is A), and the walk from \<^verbatim>\<open>topWindow\<close> along \<^verbatim>\<open>below\<close> ends within 16 steps, visits
  exactly the in-use windows, each once, ends at \<^verbatim>\<open>bottomWindow\<close>, and the walk from
  \<^verbatim>\<open>bottomWindow\<close> along \<^verbatim>\<open>above\<close> visits the same windows in reverse order; with no window
  both \<^verbatim>\<open>topWindow\<close> and \<^verbatim>\<open>bottomWindow\<close> are null.
\<close>

theorem zorder_consistency: "zorder_consistent (run_calls cs WM_Init)"
  using zinv_run [OF zinv_init, of cs] by (rule zinv_consistent)

lemma demo_calls_list: "zlist_run demo_calls [] = [1, 2]"
  by (simp add: demo_calls_def WM_MAX_WINDOWS_def upt_conv_Cons)

theorem zorder_consistency_witness:
  "zorder_consistent (run_calls demo_calls WM_Init) \<and>
   topWindow (run_calls demo_calls WM_Init) = Some 1 \<and>
   bottomWindow (run_calls demo_calls WM_Init) = Some 2 \<and>
   above_w (win_at (run_calls demo_calls WM_Init) 2) = Some 1 \<and>
   below (win_at (run_calls demo_calls WM_Init) 1) = Some 2 \<and>
   walk_below (run_calls demo_calls WM_Init) = Some [1, 2] \<and>
   walk_above (run_calls demo_calls WM_Init) = Some [2, 1]"
proof -
  have z: "zinv (run_calls demo_calls WM_Init) [1, 2]"
    using zinv_run [OF zinv_init, of demo_calls] by (simp add: demo_calls_list)
  then have l: "linked (run_calls demo_calls WM_Init) [1, 2]" by (simp add: zinv_def)
  have p: "topWindow (run_calls demo_calls WM_Init) = Some 1"
    "bottomWindow (run_calls demo_calls WM_Init) = Some 2"
    "above_w (win_at (run_calls demo_calls WM_Init) 2) = Some 1"
    "below (win_at (run_calls demo_calls WM_Init) 1) = Some 2"
    "above_w (win_at (run_calls demo_calls WM_Init) 1) = None"
    "below (win_at (run_calls demo_calls WM_Init) 2) = None"
    using l by (simp_all add: linked_def prv_def WM_MAX_WINDOWS_def)
  have w: "walk_below (run_calls demo_calls WM_Init) = Some [1, 2]"
    "walk_above (run_calls demo_calls WM_Init) = Some [2, 1]"
    using zinv_walks [OF z] by simp_all
  show ?thesis using zorder_consistency [of demo_calls] p w by simp
qed

section \<open>The register protocol\<close>


lemma step_not_enabled: "\<not> enabled ext a s \<Longrightarrow> step ext a s = s"
  by (cases a) (auto simp: enabled_def step_def split: option.splits)

lemma quiescent_step: "quiescent ext s \<Longrightarrow> step ext a s = s"
  by (cases a) (auto simp: quiescent_def step_not_enabled)

lemma solo_step: "solo ext s \<Longrightarrow> step ext a s = s \<or> step ext a s = advance ext s"
  by (cases a) (auto simp: solo_def advance_def pick_def step_not_enabled)

lemma solo_pick_step: "solo ext s \<Longrightarrow> a = pick ext s \<Longrightarrow> step ext a s = advance ext s"
  by (simp add: advance_def)

lemma solo_other_step: "solo ext s \<Longrightarrow> a \<noteq> pick ext s \<Longrightarrow> step ext a s = s"
  by (cases a) (auto simp: solo_def pick_def step_not_enabled split: if_splits)

lemma advance_n_add: "advance_n ext (j + k) s = advance_n ext k (advance_n ext j s)"
  by (induction j arbitrary: s) simp_all

lemma lockstep_advance_n: "lockstep ext n s \<Longrightarrow> j \<le> n \<Longrightarrow> lockstep ext (n - j) (advance_n ext j s)"
proof (induction j arbitrary: n s)
  case 0
  then show ?case by simp
next
  case (Suc j)
  then obtain n' where n: "n = Suc n'" by (cases n) auto
  then show ?case using Suc by simp
qed

lemma run_Cons: "run ext (a # sched) s = run ext sched (step ext a s)"
  by (simp add: run_def)

lemma run_append: "run ext (xs @ ys) s = run ext ys (run ext xs s)"
  by (simp add: run_def)

lemma run_on_path:
  "lockstep ext n s \<Longrightarrow> \<exists>k\<le>n. run ext sched s = advance_n ext k s"
proof (induction sched arbitrary: n s)
  case Nil
  have "run ext [] s = advance_n ext 0 s" by (simp add: run_def)
  then show ?case by blast
next
  case (Cons a sched)
  show ?case
  proof (cases n)
    case 0
    then have "step ext a s = s" using Cons.prems by (simp add: quiescent_step)
    then show ?thesis using Cons.IH [OF Cons.prems] by (simp add: run_Cons)
  next
    case (Suc n')
    then have so: "solo ext s" and l': "lockstep ext n' (advance ext s)" using Cons.prems by simp_all
    from solo_step [OF so, of a] show ?thesis
    proof
      assume "step ext a s = s"
      then show ?thesis using Cons.IH [OF Cons.prems] by (simp add: run_Cons)
    next
      assume adv: "step ext a s = advance ext s"
      obtain k where k: "k \<le> n'" "run ext sched (advance ext s) = advance_n ext k (advance ext s)"
        using Cons.IH [OF l'] by blast
      then have "run ext (a # sched) s = advance_n ext (Suc k) s" by (simp add: run_Cons adv)
      moreover have "Suc k \<le> n" using k Suc by simp
      ultimately show ?thesis by blast
    qed
  qed
qed

lemma step_on_path:
  assumes "lockstep ext n s"
  shows "\<exists>j\<le>n. step ext a s = advance_n ext j s"
  using run_on_path [OF assms, of "[a]"] by (simp add: run_def)

lemma round_on_path:
  assumes "lockstep ext n s"
  shows "\<exists>j\<le>n. run ext [Main, Sub, HW] s = advance_n ext j s \<and> (0 < n \<longrightarrow> 0 < j)"
proof (cases n)
  case 0
  then show ?thesis using assms by (simp add: run_def quiescent_step)
next
  case (Suc n')
  then have so: "solo ext s" and l': "lockstep ext n' (advance ext s)" using assms by simp_all
  have rest: "\<exists>k\<le>n'. run ext sched (advance ext s) = advance_n ext k (advance ext s)" for sched
    by (rule run_on_path [OF l'])
  have "\<exists>k\<le>n'. run ext [Main, Sub, HW] s = advance_n ext k (advance ext s)"
  proof (cases "pick ext s")
    case Main
    then have "step ext Main s = advance ext s" using so by (simp add: solo_pick_step)
    then show ?thesis using rest [of "[Sub, HW]"] by (simp add: run_Cons)
  next
    case Sub
    then have "step ext Main s = s" "step ext Sub s = advance ext s"
      using so by (simp_all add: solo_pick_step solo_other_step)
    then show ?thesis using rest [of "[HW]"] by (simp add: run_Cons)
  next
    case HW
    then have "step ext Main s = s" "step ext Sub s = s" "step ext HW s = advance ext s"
      using so by (simp_all add: solo_pick_step solo_other_step)
    then show ?thesis using rest [of "[]"] by (simp add: run_Cons)
  qed
  then obtain k where "k \<le> n'" "run ext [Main, Sub, HW] s = advance_n ext (Suc k) s" by auto
  then show ?thesis using Suc by (intro exI [of _ "Suc k"]) simp
qed

lemma round_robin_reaches:
  "lockstep ext n s \<Longrightarrow> n \<le> m \<Longrightarrow> run ext (round_robin m) s = advance_n ext n s"
proof (induction m arbitrary: n s)
  case 0
  then show ?case by (simp add: round_robin_def run_def)
next
  case (Suc m)
  obtain j where j: "j \<le> n" "run ext [Main, Sub, HW] s = advance_n ext j s" "0 < n \<longrightarrow> 0 < j"
    using round_on_path [OF Suc.prems(1)] by blast
  have l: "lockstep ext (n - j) (advance_n ext j s)"
    by (rule lockstep_advance_n [OF Suc.prems(1) j(1)])
  have le: "n - j \<le> m" using Suc.prems(2) j by (cases n) auto
  have "run ext (round_robin (Suc m)) s = run ext (round_robin m) (run ext [Main, Sub, HW] s)"
    by (simp add: round_robin_def run_def)
  also have "\<dots> = advance_n ext (n - j) (advance_n ext j s)"
    using Suc.IH [OF l le] by (simp add: j)
  also have "\<dots> = advance_n ext n s" using j(1) advance_n_add [of ext j "n - j" s] by simp
  finally show ?case .
qed


lemmas proto_defs = main_round_trip_def main_send_cmd_def main_wait_done_def main_read_result_def
  sub_main_turn_def sub_wait_cmd_def process_command_def sub_ack_def sub_done_def sub_error_def
  sub_return_wram_def sub_write_result_def sub_read_param_def

lemmas sched_defs = solo_def quiescent_def enabled_def advance_def pick_def step_def
  sub_current_def hw_enabled_def start_def idle_regs_def

lemma ret_bit_set [simp]: "(m OR MEM_MODE_RET) AND MEM_MODE_RET \<noteq> 0"
proof -
  have "(m OR 1) AND 1 = (1::16 word)"
    by (rule bit_word_eqI) (auto simp: bit_simps)
  then show ?thesis by (simp add: MEM_MODE_RET_def)
qed

lemma ret_bit_cleared [simp]: "swap_done v AND MEM_MODE_RET = 0"
  unfolding swap_done_def MEM_MODE_RET_def MEM_MODE_DMNA_def
  by (rule bit_word_eqI) (auto simp: bit_simps)

lemmas code_defs = CMD_NONE_def CMD_INIT_OS_def CMD_RENDER_FRAME_def CMD_WRAM_SWAP_def
  CMD_OPEN_WINDOW_def CMD_CLOSE_WINDOW_def CMD_MOVE_WINDOW_def CMD_CD_PLAY_def
  CMD_MOUSE_EVENT_def STATUS_IDLE_def STATUS_BUSY_def STATUS_DONE_def STATUS_ERROR_def

lemma lockstep_numeral:
  "lockstep ext (numeral k) s = (solo ext s \<and> lockstep ext (pred_numeral k) (advance ext s))"
  by (simp add: numeral_eq_Suc)

lemma advance_n_numeral:
  "advance_n ext (numeral k) s = advance_n ext (pred_numeral k) (advance ext s)"
  by (simp add: numeral_eq_Suc)


lemma path_all_advance_n:
  "path_all ext n P s \<Longrightarrow> k \<le> n \<Longrightarrow> P (advance_n ext k s)"
proof (induction k arbitrary: n s)
  case 0
  then show ?case by (cases n) simp_all
next
  case (Suc k)
  then obtain n' where "n = Suc n'" by (cases n) auto
  then show ?case using Suc by auto
qed

lemma path_all_numeral:
  "path_all ext (numeral k) P s = (P s \<and> path_all ext (pred_numeral k) P (advance ext s))"
  by (simp add: numeral_eq_Suc)

lemma run_invariant:
  assumes "lockstep ext n s" and "path_all ext n P s"
  shows "P (run ext sched s)"
proof -
  obtain k where "k \<le> n" "run ext sched s = advance_n ext k s"
    using run_on_path [OF assms(1)] by blast
  then show ?thesis using path_all_advance_n [OF assms(2)] by simp
qed

lemma process_command_unhandled: "unhandled cmd \<Longrightarrow> process_command ext cmd st = error_path st"
  by (simp add: process_command_def unhandled_def error_path_def sub_ack_def sub_error_def)

lemma error_lockstep:
  assumes "unhandled cmd" and "cmd \<noteq> CMD_NONE" and "m AND MEM_MODE_RET = 0"
  shows "lockstep ext 15 (start (main_round_trip cmd p0 p1 p2 p3) (idle_regs cs ss m) st)"
  using assms
  by (simp add: lockstep_numeral sched_defs proto_defs unhandled_def code_defs)

lemma error_final:
  assumes "unhandled cmd" and "cmd \<noteq> CMD_NONE" and "m AND MEM_MODE_RET = 0"
  shows "advance_n ext 15 (start (main_round_trip cmd p0 p1 p2 p3) (idle_regs cs ss m) st) =
    \<lparr>regs = idle_regs (cs[0 := p0, 1 := p1, 2 := p2, 3 := p3]) ss m,
     mainp = Ret (STATUS_ERROR, ss ! 0), subp = Ret st, swaps = 0\<rparr>"
  using assms
  by (simp add: advance_n_numeral sched_defs proto_defs unhandled_def code_defs)



lemma error_path_safe:
  assumes "unhandled cmd" and "cmd \<noteq> CMD_NONE" and "m AND MEM_MODE_RET = 0"
  shows "path_all ext 15
     (\<lambda>s. cfs (regs s) \<noteq> STATUS_DONE \<and>
          (case main_result s of None \<Rightarrow> True | Some r \<Rightarrow> fst r = STATUS_ERROR))
     (start (main_round_trip cmd p0 p1 p2 p3) (idle_regs cs ss m) st)"
  using assms
  by (simp add: path_all_numeral sched_defs proto_defs unhandled_def code_defs main_result_def)

text \<open>
  C7.  For every opcode without a case in the \<^verbatim>\<open>switch\<close>, \<^verbatim>\<open>process_command\<close> is the error
  path: it sets the status flag to Busy, then to Error, waits for the front flag to read
  None and sets the status flag to Idle.  When such an opcode (other than None, which the
  command wait never delivers) arrives from a front side that sends it and waits for Done,
  then under every schedule the status flag is never Done and the front side's wait, if it
  has returned, returned Error; some processor can move until both are through; and
  every round-robin schedule of 15 rounds or more ends with the front side holding Error,
  the back side idle at the top of its loop with its state unchanged.
\<close>

theorem unknown_opcode_error_path:
  assumes "unhandled cmd"
  shows "process_command ext cmd st = error_path st \<and>
    (cmd \<noteq> CMD_NONE \<and> m AND MEM_MODE_RET = 0 \<longrightarrow>
      (\<forall>sched.
         cfs (regs (run ext sched
           (start (main_round_trip cmd p0 p1 p2 p3) (idle_regs cs ss m) st))) \<noteq> STATUS_DONE \<and>
         (case main_result (run ext sched
            (start (main_round_trip cmd p0 p1 p2 p3) (idle_regs cs ss m) st)) of
            None \<Rightarrow> True | Some r \<Rightarrow> fst r = STATUS_ERROR)) \<and>
      lockstep ext 15 (start (main_round_trip cmd p0 p1 p2 p3) (idle_regs cs ss m) st) \<and>
      (\<forall>n\<ge>15.
         run ext (round_robin n)
           (start (main_round_trip cmd p0 p1 p2 p3) (idle_regs cs ss m) st) =
         \<lparr>regs = idle_regs (cs[0 := p0, 1 := p1, 2 := p2, 3 := p3]) ss m,
          mainp = Ret (STATUS_ERROR, ss ! 0), subp = Ret st, swaps = 0\<rparr>))"
proof (intro conjI impI allI)
  show "process_command ext cmd st = error_path st"
    by (rule process_command_unhandled [OF assms])
next
  fix sched
  assume a: "cmd \<noteq> CMD_NONE \<and> m AND MEM_MODE_RET = 0"
  let ?s = "start (main_round_trip cmd p0 p1 p2 p3) (idle_regs cs ss m) st"
  have l: "lockstep ext 15 ?s" using assms a by (simp add: error_lockstep)
  have p: "path_all ext 15
     (\<lambda>s. cfs (regs s) \<noteq> STATUS_DONE \<and>
          (case main_result s of None \<Rightarrow> True | Some r \<Rightarrow> fst r = STATUS_ERROR)) ?s"
    using assms a by (simp add: error_path_safe)
  from run_invariant [OF l p, of sched]
  show "cfs (regs (run ext sched ?s)) \<noteq> STATUS_DONE"
    and "case main_result (run ext sched ?s) of
           None \<Rightarrow> True | Some r \<Rightarrow> fst r = STATUS_ERROR"
    by simp_all
next
  assume a: "cmd \<noteq> CMD_NONE \<and> m AND MEM_MODE_RET = 0"
  show "lockstep ext 15 (start (main_round_trip cmd p0 p1 p2 p3) (idle_regs cs ss m) st)"
    using assms a by (simp add: error_lockstep)
next
  fix n :: nat
  assume a: "cmd \<noteq> CMD_NONE \<and> m AND MEM_MODE_RET = 0" and n: "15 \<le> n"
  let ?s = "start (main_round_trip cmd p0 p1 p2 p3) (idle_regs cs ss m) st"
  have l: "lockstep ext 15 ?s" using assms a by (simp add: error_lockstep)
  show "run ext (round_robin n) ?s =
         \<lparr>regs = idle_regs (cs[0 := p0, 1 := p1, 2 := p2, 3 := p3]) ss m,
          mainp = Ret (STATUS_ERROR, ss ! 0), subp = Ret st, swaps = 0\<rparr>"
    using round_robin_reaches [OF l n] assms a by (simp add: error_final)
qed

lemma demo_mode: "MEM_MODE_1M AND MEM_MODE_RET = 0"
  by (simp add: MEM_MODE_1M_def MEM_MODE_RET_def)

theorem unknown_opcode_error_path_witness:
  "unhandled 0x30 \<and>
   process_command demo_ext 0x30 demo_local = error_path demo_local \<and>
   run demo_ext (round_robin 15) (start (main_round_trip 0x30 1 2 3 4) demo_regs demo_local) =
     \<lparr>regs = idle_regs [1, 2, 3, 4, 0, 0, 0, 0] zero8 MEM_MODE_1M,
      mainp = Ret (STATUS_ERROR, 0), subp = Ret demo_local, swaps = 0\<rparr>"
proof -
  have u: "unhandled 0x30" by (simp add: unhandled_def code_defs)
  have n: "(0x30::8 word) \<noteq> CMD_NONE \<and> MEM_MODE_1M AND MEM_MODE_RET = 0"
    by (simp add: CMD_NONE_def demo_mode)
  show ?thesis
    using unknown_opcode_error_path [OF u, of demo_ext demo_local MEM_MODE_1M 1 2 3 4 zero8 zero8] n u
    by (simp add: demo_regs_def zero8_def)
qed

lemma swap_done_even [simp]: "even (swap_done v)"
  unfolding swap_done_def MEM_MODE_RET_def MEM_MODE_DMNA_def
  by (simp add: even_and_iff even_not_iff even_or_iff)

lemma swap_done_and1 [simp]: "swap_done v AND 1 = 0"
  by (rule bit_word_eqI) (auto simp: bit_simps swap_done_def MEM_MODE_RET_def MEM_MODE_DMNA_def)

lemmas handler_defs = render_frame_def open_window_def close_window_def WM_BeginUpdate_def
  SUB_STATE_READY_def SUB_STATE_RENDERING_def hw_swap_def rendered_clean_def MEM_MODE_RET_def

lemma render_lockstep:
  assumes "dirtyCount (wm st) = 0" and "length ss = 8" and "m AND MEM_MODE_RET = 0"
  shows "lockstep ext 22
     (start (main_round_trip CMD_RENDER_FRAME p0 p1 p2 p3) (idle_regs cs ss m) st)"
  using assms
  by (simp add: lockstep_numeral sched_defs proto_defs code_defs handler_defs)

lemma render_final:
  assumes "dirtyCount (wm st) = 0" and "length ss = 8" and "m AND MEM_MODE_RET = 0"
  shows "advance_n ext 22
     (start (main_round_trip CMD_RENDER_FRAME p0 p1 p2 p3) (idle_regs cs ss m) st) =
     \<lparr>regs = idle_regs (cs[0 := p0, 1 := p1, 2 := p2, 3 := p3])
               (ss[0 := SUB_STATE_RENDERING, 1 := 0, 0 := SUB_STATE_READY])
               (swap_done (m OR MEM_MODE_RET)),
      mainp = Ret (STATUS_DONE, SUB_STATE_READY), subp = Ret (rendered_clean st),
      swaps = 1\<rparr>"
  using assms
  by (simp add: advance_n_numeral sched_defs proto_defs code_defs handler_defs)

lemma render_path_safe:
  assumes "dirtyCount (wm st) = 0" and "length ss = 8" and "m AND MEM_MODE_RET = 0"
  shows "path_all ext 22
     (\<lambda>s. cfs (regs s) \<noteq> STATUS_ERROR \<and>
          (case main_result s of None \<Rightarrow> True
           | Some r \<Rightarrow> r = (STATUS_DONE, SUB_STATE_READY) \<and> swaps s = 1))
     (start (main_round_trip CMD_RENDER_FRAME p0 p1 p2 p3) (idle_regs cs ss m) st)"
  using assms
  by (simp add: path_all_numeral sched_defs proto_defs code_defs handler_defs main_result_def)

lemma open_lockstep:
  assumes "length cs = 8" and "m AND MEM_MODE_RET = 0"
  shows "lockstep ext 20
     (start (main_round_trip CMD_OPEN_WINDOW p0 p1 p2 p3) (idle_regs cs ss m) st)"
proof -
  obtain win wm' where nw:
    "WM_NewWindow \<lparr>top_edge = p1, left = p0, bottom = p1 + p3, right = p0 + p2\<rparr>
       (Some untitled) WM_STYLE_DOCUMENT WF_VISIBLE (wm st) = (win, wm')"
    by fastforce
  show ?thesis
    using assms nw
    by (simp add: lockstep_numeral sched_defs proto_defs code_defs handler_defs)
qed

lemma open_final:
  assumes "length cs = 8" and "length ss = 8" and "m AND MEM_MODE_RET = 0"
    and "WM_NewWindow \<lparr>top_edge = p1, left = p0, bottom = p1 + p3, right = p0 + p2\<rparr>
           (Some untitled) WM_STYLE_DOCUMENT WF_VISIBLE (wm st) = (win, wm')"
  shows "advance_n ext 20
     (start (main_round_trip CMD_OPEN_WINDOW p0 p1 p2 p3) (idle_regs cs ss m) st) =
     \<lparr>regs = idle_regs (cs[0 := p0, 1 := p1, 2 := p2, 3 := p3])
               (ss[0 := (case win of Some i \<Rightarrow> ucast (win_id (win_at wm' i)) | None \<Rightarrow> 0xFF)])
               m,
      mainp = Ret (STATUS_DONE,
                   case win of Some i \<Rightarrow> ucast (win_id (win_at wm' i)) | None \<Rightarrow> 0xFF),
      subp = Ret (st\<lparr>wm := wm'\<rparr>), swaps = 0\<rparr>"
  using assms
  by (simp add: advance_n_numeral sched_defs proto_defs code_defs handler_defs)

lemma close_lockstep:
  assumes "length cs = 8" and "m AND MEM_MODE_RET = 0"
  shows "lockstep ext 17
     (start (main_round_trip CMD_CLOSE_WINDOW p0 p1 p2 p3) (idle_regs cs ss m) st)"
proof (cases "WM_GetWindowById (ucast p0) (wm st)")
  case None
  then show ?thesis
    using assms
    by (simp add: lockstep_numeral sched_defs proto_defs code_defs handler_defs)
next
  case (Some k)
  then show ?thesis
    using assms
    by (simp add: lockstep_numeral sched_defs proto_defs code_defs handler_defs)
qed

lemma close_final_found:
  assumes "length cs = 8" and "length ss = 8" and "m AND MEM_MODE_RET = 0"
    and "WM_GetWindowById (ucast p0) (wm st) = Some k"
  shows "advance_n ext 17
     (start (main_round_trip CMD_CLOSE_WINDOW p0 p1 p2 p3) (idle_regs cs ss m) st) =
     \<lparr>regs = idle_regs (cs[0 := p0, 1 := p1, 2 := p2, 3 := p3]) (ss[0 := 0]) m,
      mainp = Ret (STATUS_DONE, 0),
      subp = Ret (st\<lparr>wm := WM_DisposeWindow (Some k) (wm st)\<rparr>), swaps = 0\<rparr>"
  using assms
  by (simp add: advance_n_numeral sched_defs proto_defs code_defs handler_defs)

lemma close_final_missing:
  assumes "length cs = 8" and "length ss = 8" and "m AND MEM_MODE_RET = 0"
    and "WM_GetWindowById (ucast p0) (wm st) = None"
  shows "advance_n ext 17
     (start (main_round_trip CMD_CLOSE_WINDOW p0 p1 p2 p3) (idle_regs cs ss m) st) =
     \<lparr>regs = idle_regs (cs[0 := p0, 1 := p1, 2 := p2, 3 := p3]) (ss[0 := 0xFF]) m,
      mainp = Ret (STATUS_DONE, 0xFF), subp = Ret st, swaps = 0\<rparr>"
  using assms
  by (simp add: advance_n_numeral sched_defs proto_defs code_defs handler_defs)


text \<open>
  C9.  A render-frame command that arrives when no dirty rectangle is pending, from a front
  side that sends it and waits: the dispatcher draws nothing for the (empty) dirty list,
  then the menu bar, its pull-down when a menu is tracking, and the cursor, closes the
  update, releases the bank (the hardware swaps once), writes Ready to result register 0
  and signals Done.  Only one processor can move at a time, for 22 moves; under every
  schedule the status flag is never Error and the front side's wait, once it has returned,
  returned Done with result register 0 reading Ready, after the swap; every round-robin
  schedule of 22 rounds or more ends there, both sides idle.
\<close>

theorem render_nothing_dirty:
  assumes "dirtyCount (wm st) = 0" and "length ss = 8" and "m AND MEM_MODE_RET = 0"
  shows "lockstep ext 22
      (start (main_round_trip CMD_RENDER_FRAME p0 p1 p2 p3) (idle_regs cs ss m) st) \<and>
    (\<forall>sched.
       cfs (regs (run ext sched
         (start (main_round_trip CMD_RENDER_FRAME p0 p1 p2 p3) (idle_regs cs ss m) st))) \<noteq>
         STATUS_ERROR \<and>
       (case main_result (run ext sched
          (start (main_round_trip CMD_RENDER_FRAME p0 p1 p2 p3) (idle_regs cs ss m) st)) of
          None \<Rightarrow> True
        | Some r \<Rightarrow> r = (STATUS_DONE, SUB_STATE_READY) \<and>
            swaps (run ext sched
              (start (main_round_trip CMD_RENDER_FRAME p0 p1 p2 p3) (idle_regs cs ss m) st)) = 1)) \<and>
    (\<forall>n\<ge>22.
       run ext (round_robin n)
         (start (main_round_trip CMD_RENDER_FRAME p0 p1 p2 p3) (idle_regs cs ss m) st) =
       \<lparr>regs = idle_regs (cs[0 := p0, 1 := p1, 2 := p2, 3 := p3])
                 (ss[0 := SUB_STATE_RENDERING, 1 := 0, 0 := SUB_STATE_READY])
                 (swap_done (m OR MEM_MODE_RET)),
        mainp = Ret (STATUS_DONE, SUB_STATE_READY),
        subp = Ret (st\<lparr>drawn := drawn st @ [BLT_ResetClip, MenuBar_Draw] @
                              (if menu_tracking st then [MenuBar_DrawDropdown] else []) @
                              [BLT_BlitBitmap1 (cursorX st) (cursorY st)],
                         wm := WM_EndUpdate (wm st)\<rparr>),
        swaps = 1\<rparr>)"
proof (intro conjI allI impI)
  let ?s = "start (main_round_trip CMD_RENDER_FRAME p0 p1 p2 p3) (idle_regs cs ss m) st"
  show l: "lockstep ext 22 ?s" by (rule render_lockstep [OF assms])
  {
    fix sched
    from run_invariant [OF l render_path_safe [OF assms], of sched]
    show "cfs (regs (run ext sched ?s)) \<noteq> STATUS_ERROR"
      and "case main_result (run ext sched ?s) of None \<Rightarrow> True
           | Some r \<Rightarrow> r = (STATUS_DONE, SUB_STATE_READY) \<and> swaps (run ext sched ?s) = 1"
      by simp_all
  }
  fix n :: nat
  assume "22 \<le> n"
  from round_robin_reaches [OF l this]
  show "run ext (round_robin n) ?s =
       \<lparr>regs = idle_regs (cs[0 := p0, 1 := p1, 2 := p2, 3 := p3])
                 (ss[0 := SUB_STATE_RENDERING, 1 := 0, 0 := SUB_STATE_READY])
                 (swap_done (m OR MEM_MODE_RET)),
        mainp = Ret (STATUS_DONE, SUB_STATE_READY),
        subp = Ret (st\<lparr>drawn := drawn st @ [BLT_ResetClip, MenuBar_Draw] @
                              (if menu_tracking st then [MenuBar_DrawDropdown] else []) @
                              [BLT_BlitBitmap1 (cursorX st) (cursorY st)],
                         wm := WM_EndUpdate (wm st)\<rparr>),
        swaps = 1\<rparr>"
    by (simp add: render_final [OF assms] rendered_clean_def)
qed

lemma swap_done_demo: "swap_done (MEM_MODE_1M OR MEM_MODE_RET) = MEM_MODE_1M"
  by (simp add: swap_done_def MEM_MODE_1M_def MEM_MODE_RET_def MEM_MODE_DMNA_def)

theorem render_nothing_dirty_witness:
  "dirtyCount (wm demo_local) = 0 \<and>
   run demo_ext (round_robin 22)
     (start (main_round_trip CMD_RENDER_FRAME 0 0 320 224) demo_regs demo_local) =
     \<lparr>regs = idle_regs [0, 0, 320, 224, 0, 0, 0, 0] [2, 0, 0, 0, 0, 0, 0, 0] MEM_MODE_1M,
      mainp = Ret (STATUS_DONE, SUB_STATE_READY),
      subp = Ret (demo_local\<lparr>drawn := [BLT_ResetClip, MenuBar_Draw, BLT_BlitBitmap1 160 112],
                              wm := WM_EndUpdate WM_Init\<rparr>),
      swaps = 1\<rparr>"
proof -
  have d: "dirtyCount (wm demo_local) = 0" by (simp add: demo_local_def wm_init_dirty)
  have l: "length zero8 = 8" by (simp add: zero8_def)
  show ?thesis
    using render_nothing_dirty [OF d l demo_mode, of demo_ext 0 0 320 224 zero8] d
    by (simp add: demo_regs_def zero8_def demo_local_def swap_done_demo
        SUB_STATE_READY_def SUB_STATE_RENDERING_def)
qed

lemma windowed_lookup: "WM_GetWindowById 0 (wm windowed_local) = Some 0"
  by (simp add: windowed_local_def demo_local_def WM_GetWindowById_def hit_wm_def WM_Init_def
      WM_MAX_WINDOWS_def)

text \<open>
  C8 as stated fails for opcode 0x22.  With window 0 on the desktop, a front side that sends
  move-window for window 0 and waits gets Error, not Done; no result is written and the
  dispatcher's state, the window included, is unchanged.
\<close>

theorem move_window_not_dispatched:
  "WM_GetWindowById 0 (wm windowed_local) = Some 0 \<and>
   run demo_ext (round_robin 15)
     (start (main_round_trip CMD_MOVE_WINDOW 0 50 60 0) demo_regs windowed_local) =
     \<lparr>regs = idle_regs [0, 50, 60, 0, 0, 0, 0, 0] zero8 MEM_MODE_1M,
      mainp = Ret (STATUS_ERROR, 0), subp = Ret windowed_local, swaps = 0\<rparr>"
proof -
  have u: "unhandled CMD_MOVE_WINDOW" by (simp add: unhandled_def code_defs)
  have n: "CMD_MOVE_WINDOW \<noteq> CMD_NONE" by (simp add: code_defs)
  have "run demo_ext (round_robin 15)
     (start (main_round_trip CMD_MOVE_WINDOW 0 50 60 0) (idle_regs zero8 zero8 MEM_MODE_1M)
        windowed_local) =
     advance_n demo_ext 15
       (start (main_round_trip CMD_MOVE_WINDOW 0 50 60 0) (idle_regs zero8 zero8 MEM_MODE_1M)
          windowed_local)"
    by (rule round_robin_reaches [OF error_lockstep [OF u n demo_mode]]) simp
  then show ?thesis
    by (simp add: error_final [OF u n demo_mode] windowed_lookup demo_regs_def zero8_def)
qed

text \<open>
  C8, amended.  From a front side that sends the command and waits, with both sides idle
  before: for opcode 0x20 the dispatcher reads x, y, w, h from the four parameter registers,
  calls \<^verbatim>\<open>WM_NewWindow\<close> with the bounds (x, y)-(x + w, y + h), the title "Untitled", document
  style and the visible flag, writes the new window's identifier (0xFF when the pool is
  full) to result register 0 and completes with Done; for opcode 0x21 it reads the window
  identifier from parameter register 0, looks the window up, disposes of it and writes 0
  when it exists, writes 0xFF when it does not, and completes with Done; opcode 0x22 has no
  case: the dispatcher takes the error path, calls no window operation, writes no result
  and completes with Error.
\<close>

theorem window_commands_dispatch:
  assumes "length cs = 8" and "length ss = 8" and "m AND MEM_MODE_RET = 0"
  shows
    "(WM_NewWindow \<lparr>top_edge = y, left = x, bottom = y + h, right = x + w\<rparr>
        (Some untitled) WM_STYLE_DOCUMENT WF_VISIBLE (wm st) = (win, wm') \<longrightarrow>
      lockstep ext 20
        (start (main_round_trip CMD_OPEN_WINDOW x y w h) (idle_regs cs ss m) st) \<and>
      (\<forall>n\<ge>20.
         run ext (round_robin n)
           (start (main_round_trip CMD_OPEN_WINDOW x y w h) (idle_regs cs ss m) st) =
         \<lparr>regs = idle_regs (cs[0 := x, 1 := y, 2 := w, 3 := h])
                   (ss[0 := (case win of Some i \<Rightarrow> ucast (win_id (win_at wm' i))
                             | None \<Rightarrow> 0xFF)]) m,
          mainp = Ret (STATUS_DONE,
                       case win of Some i \<Rightarrow> ucast (win_id (win_at wm' i)) | None \<Rightarrow> 0xFF),
          subp = Ret (st\<lparr>wm := wm'\<rparr>), swaps = 0\<rparr>)) \<and>
     (WM_GetWindowById (ucast i) (wm st) = Some k \<longrightarrow>
      lockstep ext 17
        (start (main_round_trip CMD_CLOSE_WINDOW i p1 p2 p3) (idle_regs cs ss m) st) \<and>
      (\<forall>n\<ge>17.
         run ext (round_robin n)
           (start (main_round_trip CMD_CLOSE_WINDOW i p1 p2 p3) (idle_regs cs ss m) st) =
         \<lparr>regs = idle_regs (cs[0 := i, 1 := p1, 2 := p2, 3 := p3]) (ss[0 := 0]) m,
          mainp = Ret (STATUS_DONE, 0),
          subp = Ret (st\<lparr>wm := WM_DisposeWindow (Some k) (wm st)\<rparr>), swaps = 0\<rparr>)) \<and>
     (WM_GetWindowById (ucast i) (wm st) = None \<longrightarrow>
      lockstep ext 17
        (start (main_round_trip CMD_CLOSE_WINDOW i p1 p2 p3) (idle_regs cs ss m) st) \<and>
      (\<forall>n\<ge>17.
         run ext (round_robin n)
           (start (main_round_trip CMD_CLOSE_WINDOW i p1 p2 p3) (idle_regs cs ss m) st) =
         \<lparr>regs = idle_regs (cs[0 := i, 1 := p1, 2 := p2, 3 := p3]) (ss[0 := 0xFF]) m,
          mainp = Ret (STATUS_DONE, 0xFF), subp = Ret st, swaps = 0\<rparr>)) \<and>
     process_command ext CMD_MOVE_WINDOW st = error_path st \<and>
     lockstep ext 15
       (start (main_round_trip CMD_MOVE_WINDOW q0 q1 q2 q3) (idle_regs cs ss m) st) \<and>
     (\<forall>n\<ge>15.
        run ext (round_robin n)
          (start (main_round_trip CMD_MOVE_WINDOW q0 q1 q2 q3) (idle_regs cs ss m) st) =
        \<lparr>regs = idle_regs (cs[0 := q0, 1 := q1, 2 := q2, 3 := q3]) ss m,
         mainp = Ret (STATUS_ERROR, ss ! 0), subp = Ret st, swaps = 0\<rparr>)"
proof -
  have u: "unhandled CMD_MOVE_WINDOW" by (simp add: unhandled_def code_defs)
  have n: "CMD_MOVE_WINDOW \<noteq> CMD_NONE" by (simp add: code_defs)
  have lo: "lockstep ext 20
      (start (main_round_trip CMD_OPEN_WINDOW x y w h) (idle_regs cs ss m) st)"
    by (rule open_lockstep [OF assms(1) assms(3)])
  have lc: "lockstep ext 17
      (start (main_round_trip CMD_CLOSE_WINDOW i p1 p2 p3) (idle_regs cs ss m) st)"
    by (rule close_lockstep [OF assms(1) assms(3)])
  have lm: "lockstep ext 15
      (start (main_round_trip CMD_MOVE_WINDOW q0 q1 q2 q3) (idle_regs cs ss m) st)"
    by (rule error_lockstep [OF u n assms(3)])
  have "process_command ext CMD_MOVE_WINDOW st = error_path st"
    by (rule process_command_unhandled [OF u])
  with lo lc lm show ?thesis
    by (simp add: round_robin_reaches open_final [OF assms] close_final_found [OF assms]
        close_final_missing [OF assms] error_final [OF u n assms(3)])
qed


lemma first_window:
  "fst (WM_NewWindow b t sty f WM_Init) = Some 0"
  "win_id (win_at (snd (WM_NewWindow b t sty f WM_Init)) 0) = 0"
proof -
  have "fst (pool_alloc WM_Init) = Some 0"
    using zinv_alloc_find [OF zinv_init] by (simp add: WM_MAX_WINDOWS_def upt_conv_Cons)
  then have pa: "pool_alloc WM_Init = (Some 0, snd (pool_alloc WM_Init))"
    by (metis prod.collapse)
  have len: "length (pool WM_Init) = WM_MAX_WINDOWS" by (simp add: WM_Init_def)
  show "fst (WM_NewWindow b t sty f WM_Init) = Some 0"
    by (rule new_window_result(1) [OF pa len])
  have "zinv (wm_call_step (NewWindow b t sty f) WM_Init) (zlist_step (NewWindow b t sty f) [])"
    by (rule zinv_new [OF zinv_init])
  then have "zinv (snd (WM_NewWindow b t sty f WM_Init)) [0]"
    by (simp add: WM_MAX_WINDOWS_def upt_conv_Cons)
  then show "win_id (win_at (snd (WM_NewWindow b t sty f WM_Init)) 0) = 0"
    by (simp add: zinv_def)
qed

theorem window_commands_dispatch_witness:
  "run demo_ext (round_robin 20)
     (start (main_round_trip CMD_OPEN_WINDOW 10 30 100 90) demo_regs demo_local) =
     \<lparr>regs = idle_regs [10, 30, 100, 90, 0, 0, 0, 0] zero8 MEM_MODE_1M,
      mainp = Ret (STATUS_DONE, 0),
      subp = Ret (demo_local\<lparr>wm := snd (WM_NewWindow
                \<lparr>top_edge = 30, left = 10, bottom = 120, right = 110\<rparr>
                (Some untitled) WM_STYLE_DOCUMENT WF_VISIBLE WM_Init)\<rparr>),
      swaps = 0\<rparr> \<and>
   run demo_ext (round_robin 17)
     (start (main_round_trip CMD_CLOSE_WINDOW 0 0 0 0) demo_regs windowed_local) =
     \<lparr>regs = idle_regs zero8 zero8 MEM_MODE_1M,
      mainp = Ret (STATUS_DONE, 0),
      subp = Ret (windowed_local\<lparr>wm := WM_DisposeWindow (Some 0) hit_wm\<rparr>),
      swaps = 0\<rparr> \<and>
   run demo_ext (round_robin 17)
     (start (main_round_trip CMD_CLOSE_WINDOW 5 0 0 0) demo_regs windowed_local) =
     \<lparr>regs = idle_regs [5, 0, 0, 0, 0, 0, 0, 0] [0xFF, 0, 0, 0, 0, 0, 0, 0] MEM_MODE_1M,
      mainp = Ret (STATUS_DONE, 0xFF), subp = Ret windowed_local, swaps = 0\<rparr> \<and>
   run demo_ext (round_robin 15)
     (start (main_round_trip CMD_MOVE_WINDOW 0 50 60 0) demo_regs demo_local) =
     \<lparr>regs = idle_regs [0, 50, 60, 0, 0, 0, 0, 0] zero8 MEM_MODE_1M,
      mainp = Ret (STATUS_ERROR, 0), subp = Ret demo_local, swaps = 0\<rparr>"
proof -
  define nw where "nw = WM_NewWindow \<lparr>top_edge = 30, left = 10, bottom = 120, right = 110\<rparr>
                (Some untitled) WM_STYLE_DOCUMENT WF_VISIBLE WM_Init"
  have l: "length zero8 = 8" by (simp add: zero8_def)
  have w: "wm demo_local = WM_Init" "wm windowed_local = hit_wm"
    by (simp_all add: demo_local_def windowed_local_def)
  have nweq: "WM_NewWindow \<lparr>top_edge = 30, left = 10, bottom = 120, right = 110\<rparr>
                (Some untitled) WM_STYLE_DOCUMENT WF_VISIBLE WM_Init = (Some 0, snd nw)"
    using first_window(1) [of "\<lparr>top_edge = 30, left = 10, bottom = 120, right = 110\<rparr>"
        "Some untitled" WM_STYLE_DOCUMENT WF_VISIBLE]
    by (simp add: nw_def prod_eq_iff)
  have wid: "win_id (win_at (snd nw) 0) = 0" by (simp add: nw_def first_window(2))
  have g0: "WM_GetWindowById 0 hit_wm = Some 0"
    by (simp add: WM_GetWindowById_def hit_wm_def WM_Init_def WM_MAX_WINDOWS_def)
  have g5: "WM_GetWindowById 5 hit_wm = None"
    by (simp add: WM_GetWindowById_def hit_wm_def WM_Init_def WM_MAX_WINDOWS_def)
  have a: "run demo_ext (round_robin 20)
     (start (main_round_trip CMD_OPEN_WINDOW 10 30 100 90) demo_regs demo_local) =
     \<lparr>regs = idle_regs [10, 30, 100, 90, 0, 0, 0, 0] zero8 MEM_MODE_1M,
      mainp = Ret (STATUS_DONE, 0), subp = Ret (demo_local\<lparr>wm := snd nw\<rparr>), swaps = 0\<rparr>"
    and d: "run demo_ext (round_robin 15)
     (start (main_round_trip CMD_MOVE_WINDOW 0 50 60 0) demo_regs demo_local) =
     \<lparr>regs = idle_regs [0, 50, 60, 0, 0, 0, 0, 0] zero8 MEM_MODE_1M,
      mainp = Ret (STATUS_ERROR, 0), subp = Ret demo_local, swaps = 0\<rparr>"
    using window_commands_dispatch [OF l l demo_mode, where st = demo_local and ext = demo_ext
        and x = 10 and y = 30 and w = 100 and h = 90 and win = "Some 0" and wm' = "snd nw"
        and ?q0.0 = 0 and ?q1.0 = 50 and ?q2.0 = 60 and ?q3.0 = 0]
    by (simp_all add: w nweq wid demo_regs_def zero8_def)
  have b: "run demo_ext (round_robin 17)
     (start (main_round_trip CMD_CLOSE_WINDOW 0 0 0 0) demo_regs windowed_local) =
     \<lparr>regs = idle_regs zero8 zero8 MEM_MODE_1M,
      mainp = Ret (STATUS_DONE, 0),
      subp = Ret (windowed_local\<lparr>wm := WM_DisposeWindow (Some 0) hit_wm\<rparr>),
      swaps = 0\<rparr>"
    using window_commands_dispatch [OF l l demo_mode, where st = windowed_local
        and ext = demo_ext and i = 0 and k = 0 and ?p1.0 = 0 and ?p2.0 = 0 and ?p3.0 = 0]
    by (simp add: w g0 demo_regs_def zero8_def)
  have c: "run demo_ext (round_robin 17)
     (start (main_round_trip CMD_CLOSE_WINDOW 5 0 0 0) demo_regs windowed_local) =
     \<lparr>regs = idle_regs [5, 0, 0, 0, 0, 0, 0, 0] [0xFF, 0, 0, 0, 0, 0, 0, 0] MEM_MODE_1M,
      mainp = Ret (STATUS_DONE, 0xFF), subp = Ret windowed_local, swaps = 0\<rparr>"
    using window_commands_dispatch [OF l l demo_mode, where st = windowed_local
        and ext = demo_ext and i = 5 and ?p1.0 = 0 and ?p2.0 = 0 and ?p3.0 = 0]
    by (simp add: w g5 demo_regs_def zero8_def)
  from a b c d show ?thesis by (simp add: nw_def)
qed

text \<open>
  C1: the second send is not held back.  The front side sends open-window with parameters
  (10, 30, 100, 90) and, without waiting for Done, sends render-frame with (0, 0, 320, 224).
  The back side has read the opcode of the first command but has not yet set its status to
  Busy when the second send tests the status flag: the flag still reads Idle, the test
  passes, and the four parameter registers and the opcode flag of the command in flight
  are overwritten.  The back side then acknowledges and reads, for its open-window command,
  the parameters of the render command.
\<close>

theorem second_send_overwrites:
  "run demo_ext racing_schedule (start two_sends demo_regs demo_local) =
     \<lparr>regs = \<lparr>cfm = CMD_RENDER_FRAME, cfs = STATUS_IDLE,
               comm_cmd = [0, 0, 320, 224, 0, 0, 0, 0], comm_status = zero8,
               mem_mode = MEM_MODE_1M\<rparr>,
      mainp = Ret (), subp = process_command demo_ext CMD_OPEN_WINDOW demo_local,
      swaps = 0\<rparr> \<and>
   subp (run demo_ext (racing_schedule @ [Sub, Sub, Sub, Sub, Sub])
          (start two_sends demo_regs demo_local)) =
     (case WM_NewWindow \<lparr>top_edge = 0, left = 0, bottom = 224, right = 320\<rparr>
             (Some untitled) WM_STYLE_DOCUMENT WF_VISIBLE (wm demo_local) of
        (win, wm') \<Rightarrow>
          bind (sub_write_result 0
                  (case win of Some i \<Rightarrow> ucast (win_id (win_at wm' i)) | None \<Rightarrow> 0xFF))
            (\<lambda>_. bind sub_done (\<lambda>_. Ret (demo_local\<lparr>wm := wm'\<rparr>))))"
proof -
  have r: "run demo_ext racing_schedule (start two_sends demo_regs demo_local) =
     \<lparr>regs = \<lparr>cfm = CMD_RENDER_FRAME, cfs = STATUS_IDLE,
               comm_cmd = [0, 0, 320, 224, 0, 0, 0, 0], comm_status = zero8,
               mem_mode = MEM_MODE_1M\<rparr>,
      mainp = Ret (), subp = process_command demo_ext CMD_OPEN_WINDOW demo_local,
      swaps = 0\<rparr>"
    by (simp add: run_def racing_schedule_def two_sends_def step_def sub_current_def
        sub_main_turn_def sub_wait_cmd_def main_send_cmd_def demo_regs_def idle_regs_def
        zero8_def start_def code_defs)
  show ?thesis
    unfolding run_append r
    by (simp add: run_def step_def sub_current_def process_command_def sub_ack_def
        open_window_def sub_read_param_def code_defs zero8_def case_prod_beta
        cong: option.case_cong)
qed


end
